theory Spec2Isabelle
  imports Complex_Main "HOL-Library.AList"
begin

section \<open>Data model\<close>

text \<open>
  The retrieval core of the repository: \<open>retrieval/hybrid.py\<close> (orchestrator and rank
  fusion), \<open>retrieval/reranker.py\<close>, \<open>retrieval/cache.py\<close> and
  \<open>retrieval/bm25_store.py\<close>. Python floats are modelled as the reals they approximate
  (rounding is not modelled); numpy's \<open>nan\<close> is written out where the source can produce it.
\<close>

text \<open>The exceptions the modelled code can raise. A failure of an external service is
  whatever error value the parameter standing for the service returns.\<close>

datatype error =
    KeyError
  | ValueError
  | TypeError
  | ZeroDivisionError
  | JSONDecodeError

text \<open>The dataclass \<open>SearchResult\<close> of \<open>hybrid.py\<close>. A metadata dict is an association
  list; \<open>dict.get(key, '')\<close> is \<open>map_of\<close> with the default written out.\<close>

record SearchResult =
  content :: string
  metadata :: "(string \<times> string) list"
  score :: real
  source :: string

text \<open>\<open>SearchResult\<close> objects are mutable and shared: fusion and reranking overwrite
  \<open>score\<close> and \<open>source\<close> of the objects they were handed. A list of results is a list of
  references into a store of objects.\<close>

type_synonym ref = nat
type_synonym heap = "ref \<Rightarrow> SearchResult"

text \<open>Python's slice \<open>xs[:k]\<close>: a negative \<open>k\<close> counts from the end.\<close>

definition py_take :: "int \<Rightarrow> 'a list \<Rightarrow> 'a list" where
  "py_take k xs = (if 0 \<le> k then take (nat k) xs else take (length xs - nat (- k)) xs)"

text \<open>\<open>sorted(xs, key=f, reverse=True)\<close> and \<open>xs.sort(key=f, reverse=True)\<close>: descending by
  key, and stable (elements with equal keys keep their order), which is the stable
  ascending sort by the negated key.\<close>

definition sort_desc :: "('a \<Rightarrow> real) \<Rightarrow> 'a list \<Rightarrow> 'a list" where
  "sort_desc f xs = sort_key (\<lambda>x. - f x) xs"

section \<open>Reranker (\<open>reranker.py\<close>)\<close>

text \<open>The loop \<open>for doc, rerank_score in zip(documents, scores)\<close>: each document object is
  overwritten in place and appended to \<open>reranked_docs\<close>.\<close>

fun rerank_loop :: "heap \<Rightarrow> (ref \<times> real) list \<Rightarrow> heap" where
  "rerank_loop h [] = h"
| "rerank_loop h ((doc, rerank_score) # rest) =
     rerank_loop
       (h(doc := (h doc)\<lparr>score := 0.7 * rerank_score + 0.3 * score (h doc),
                         source := ''reranked''\<rparr>))
       rest"

text \<open>\<open>Reranker.rerank\<close>. The cross-encoder \<open>self.model.predict\<close> is a parameter; the third
  component of the result lists the batches it was called with.\<close>

definition rerank ::
  "((string \<times> string) list \<Rightarrow> error + real list) \<Rightarrow> heap \<Rightarrow> string \<Rightarrow> ref list \<Rightarrow> int
     \<Rightarrow> (error + ref list) \<times> heap \<times> (string \<times> string) list list" where
  "rerank predict h query documents top_k =
     (if documents = [] then (Inr [], h, [])
      else
        let pairs = map (\<lambda>doc. (query, content (h doc))) documents in
        case predict pairs of
          Inl e \<Rightarrow> (Inl e, h, [pairs])
        | Inr scores \<Rightarrow>
            let h' = rerank_loop h (zip documents scores);
                reranked_docs = map fst (zip documents scores);
                sorted_docs = sort_desc (\<lambda>x. score (h' x)) reranked_docs
            in (Inr (py_take top_k sorted_docs), h', [pairs]))"

section \<open>Rank fusion (\<open>hybrid.py\<close>)\<close>

text \<open>\<open>_get_doc_id\<close>: the deduplication key \<open>document_id + "_" + chunk_id\<close>, both read from
  the result's metadata with default \<open>''\<close>.\<close>

definition dict_get :: "(string \<times> string) list \<Rightarrow> string \<Rightarrow> string \<Rightarrow> string" where
  "dict_get d key dflt = (case map_of d key of None \<Rightarrow> dflt | Some v \<Rightarrow> v)"

definition get_doc_id :: "SearchResult \<Rightarrow> string" where
  "get_doc_id result =
     dict_get (metadata result) ''document_id'' [] @ ''_'' @ dict_get (metadata result) ''chunk_id'' []"

text \<open>Python's \<open>x / n\<close> for a float \<open>x\<close> and an int \<open>n\<close> raises on \<open>n = 0\<close>.\<close>

definition py_div :: "real \<Rightarrow> int \<Rightarrow> error + real" where
  "py_div x n = (if n = 0 then Inl ZeroDivisionError else Inr (x / of_int n))"

text \<open>The two dicts of \<open>_reciprocal_rank_fusion\<close>: \<open>doc_map\<close> from key to result object and
  \<open>doc_scores\<close> from key to score. \<open>doc_scores\<close> is iterated later, so it keeps Python's
  insertion order: assigning to a present key keeps its place, a new key goes last
  (\<open>AList.update\<close>).\<close>

type_synonym fusion_state = "(string \<rightharpoonup> ref) \<times> (string \<times> real) list"

text \<open>\<open>for rank, result in enumerate(vector_results, start=1)\<close>; the counter \<open>rank\<close> is
  passed along.\<close>

fun fuse_vector :: "heap \<Rightarrow> real \<Rightarrow> int \<Rightarrow> int \<Rightarrow> ref list \<Rightarrow> fusion_state \<Rightarrow> error + fusion_state" where
  "fuse_vector h alpha k rank [] st = Inr st"
| "fuse_vector h alpha k rank (result # rest) (doc_map, doc_scores) =
     (let doc_id = get_doc_id (h result) in
      case py_div alpha (k + rank) of
        Inl e \<Rightarrow> Inl e
      | Inr c \<Rightarrow>
          fuse_vector h alpha k (rank + 1) rest
            (doc_map(doc_id \<mapsto> result), AList.update doc_id c doc_scores))"

text \<open>\<open>for rank, result in enumerate(bm25_results, start=1)\<close>.\<close>

fun fuse_bm25 :: "heap \<Rightarrow> real \<Rightarrow> int \<Rightarrow> int \<Rightarrow> ref list \<Rightarrow> fusion_state \<Rightarrow> error + fusion_state" where
  "fuse_bm25 h alpha k rank [] st = Inr st"
| "fuse_bm25 h alpha k rank (result # rest) (doc_map, doc_scores) =
     (let doc_id = get_doc_id (h result);
          doc_map' = (if doc_map doc_id = None then doc_map(doc_id \<mapsto> result) else doc_map)
      in
      case py_div (1 - alpha) (k + rank) of
        Inl e \<Rightarrow> Inl e
      | Inr c \<Rightarrow>
          fuse_bm25 h alpha k (rank + 1) rest
            (doc_map',
             AList.update doc_id
               ((case map_of doc_scores doc_id of None \<Rightarrow> 0 | Some s \<Rightarrow> s) + c) doc_scores))"

text \<open>The last loop: each result object is overwritten in place with its fused score and
  the tag \<open>"hybrid"\<close>, and appended to \<open>results\<close>.\<close>

fun fuse_results :: "(string \<rightharpoonup> ref) \<Rightarrow> heap \<Rightarrow> (string \<times> real) list \<Rightarrow> error + ref list \<times> heap" where
  "fuse_results doc_map h [] = Inr ([], h)"
| "fuse_results doc_map h ((doc_id, s) # rest) =
     (case doc_map doc_id of
        None \<Rightarrow> Inl KeyError
      | Some result \<Rightarrow>
          (case fuse_results doc_map (h(result := (h result)\<lparr>score := s, source := ''hybrid''\<rparr>)) rest of
             Inl e \<Rightarrow> Inl e
           | Inr (results, h') \<Rightarrow> Inr (result # results, h')))"

text \<open>\<open>HybridRetriever._reciprocal_rank_fusion\<close>; \<open>alpha\<close> is \<open>self.alpha\<close>.\<close>

definition reciprocal_rank_fusion ::
  "real \<Rightarrow> heap \<Rightarrow> ref list \<Rightarrow> ref list \<Rightarrow> int \<Rightarrow> error + ref list \<times> heap" where
  "reciprocal_rank_fusion alpha h vector_results bm25_results k =
     (case fuse_vector h alpha k 1 vector_results (Map.empty, []) of
        Inl e \<Rightarrow> Inl e
      | Inr st \<Rightarrow>
          (case fuse_bm25 h alpha k 1 bm25_results st of
             Inl e \<Rightarrow> Inl e
           | Inr (doc_map, doc_scores) \<Rightarrow>
               fuse_results doc_map h (sort_desc snd doc_scores)))"

text \<open>For stating what fusion computes: the sum of \<open>w / (k + r)\<close> over the ranks \<open>r\<close>, counted
  from \<open>rank\<close>, at which a result with key \<open>doc_id\<close> stands in a list; and what a caller sees
  of a fusion result, the key, score and source of each returned object in order.\<close>

fun contribution :: "heap \<Rightarrow> real \<Rightarrow> int \<Rightarrow> int \<Rightarrow> ref list \<Rightarrow> string \<Rightarrow> real" where
  "contribution h w k rank [] doc_id = 0"
| "contribution h w k rank (result # rest) doc_id =
     (if get_doc_id (h result) = doc_id then w / of_int (k + rank) else 0) +
     contribution h w k (rank + 1) rest doc_id"

definition observe :: "error + ref list \<times> heap \<Rightarrow> error + (string \<times> real \<times> string) list" where
  "observe res =
     (case res of
        Inl e \<Rightarrow> Inl e
      | Inr (out, h') \<Rightarrow> Inr (map (\<lambda>r. (get_doc_id (h' r), score (h' r), source (h' r))) out))"

section \<open>Semantic cache (\<open>cache.py\<close>)\<close>

text \<open>The Redis store as the cache sees it. \<open>redis.get\<close> gives nothing for a missing key;
  a stored value is empty, or bytes that \<open>json.loads\<close> rejects, or the encoding of a JSON
  object, whose fields \<open>"embedding"\<close> and \<open>"results"\<close> may each be missing.\<close>

datatype json_entry =
  JsonEntry (embedding: "real list option") (results: "SearchResult list option")

datatype blob = Empty | Garbage | Json json_entry

type_synonym redis = "(string \<times> blob) list"

definition redis_keys :: "redis \<Rightarrow> string \<Rightarrow> string list" where
  "redis_keys db prefix = filter (\<lambda>key. take (length prefix) key = prefix) (map fst db)"

definition redis_get :: "redis \<Rightarrow> string \<Rightarrow> blob option" where
  "redis_get db key = map_of db key"

definition cache_prefix :: string where
  "cache_prefix = ''semantic_cache:''"

text \<open>\<open>np.dot\<close> on two vectors raises on a shape mismatch; \<open>np.linalg.norm\<close> is the
  Euclidean norm.\<close>

definition np_dot :: "real list \<Rightarrow> real list \<Rightarrow> error + real" where
  "np_dot a b =
     (if length a \<noteq> length b then Inl ValueError else Inr (\<Sum>(x, y)\<leftarrow>zip a b. x * y))"

definition np_norm :: "real list \<Rightarrow> real" where
  "np_norm a = sqrt (\<Sum>x\<leftarrow>a. x * x)"

text \<open>The divisor of the similarity quotient, \<open>norm(query) * norm(cached)\<close>.\<close>

definition divisor :: "real list \<Rightarrow> real list \<Rightarrow> real" where
  "divisor query_embedding cached_embedding = np_norm query_embedding * np_norm cached_embedding"

text \<open>The quotient itself. The source divides without looking at the divisor. numpy does not
  raise on a zero divisor: the divisor is zero only when one vector is all zeros, the
  dividend is then zero too, and \<open>0.0 / 0.0\<close> is \<open>nan\<close>, written \<open>None\<close> here.\<close>

definition np_divide :: "real \<Rightarrow> real \<Rightarrow> real option" where
  "np_divide x y = (if y = 0 then None else Some (x / y))"

text \<open>The scan \<open>for key in cache_keys\<close> with its two variables \<open>max_similarity\<close> and
  \<open>best_match_key\<close>. Beside the outcome it returns the divisors of the divisions it
  performed, in order. The test \<open>similarity > max_similarity\<close> is false on \<open>nan\<close>.\<close>

type_synonym scan_state = "real \<times> string option"

fun scan :: "redis \<Rightarrow> real list \<Rightarrow> string list \<Rightarrow> scan_state \<Rightarrow> (error + scan_state) \<times> real list" where
  "scan db query_embedding [] st = (Inr st, [])"
| "scan db query_embedding (key # keys) (max_similarity, best_match_key) =
     (case redis_get db key of
        None \<Rightarrow> scan db query_embedding keys (max_similarity, best_match_key)
      | Some Empty \<Rightarrow> scan db query_embedding keys (max_similarity, best_match_key)
      | Some Garbage \<Rightarrow> (Inl JSONDecodeError, [])
      | Some (Json data) \<Rightarrow>
          (case embedding data of
             None \<Rightarrow> (Inl KeyError, [])
           | Some cached_embedding \<Rightarrow>
               (case np_dot query_embedding cached_embedding of
                  Inl e \<Rightarrow> (Inl e, [])
                | Inr d \<Rightarrow>
                    let similarity = np_divide d (divisor query_embedding cached_embedding);
                        st' = (case similarity of
                                 None \<Rightarrow> (max_similarity, best_match_key)
                               | Some s \<Rightarrow>
                                   if max_similarity < s then (s, Some key)
                                   else (max_similarity, best_match_key));
                        (outcome, divisors) = scan db query_embedding keys st'
                    in (outcome, divisor query_embedding cached_embedding # divisors))))"

text \<open>\<open>SemanticCache.get\<close>. \<open>threshold\<close> is \<open>self.threshold\<close>; the embedding provider
  \<open>get_embedding\<close> is a parameter and may fail. \<open>Inr None\<close> is the miss, \<open>Inr (Some rs)\<close>
  the hit, \<open>Inl e\<close> an exception.\<close>

definition cache_get ::
  "real \<Rightarrow> (string \<Rightarrow> error + real list) \<Rightarrow> redis \<Rightarrow> string
     \<Rightarrow> (error + SearchResult list option) \<times> real list" where
  "cache_get threshold get_embedding db query =
     (case get_embedding query of
        Inl e \<Rightarrow> (Inl e, [])
      | Inr query_embedding \<Rightarrow>
          let cache_keys = redis_keys db cache_prefix in
          if cache_keys = [] then (Inr None, [])
          else
            (case scan db query_embedding cache_keys (0, None) of
               (Inl e, divisors) \<Rightarrow> (Inl e, divisors)
             | (Inr (max_similarity, best_match_key), divisors) \<Rightarrow>
                 (case best_match_key of
                    None \<Rightarrow> (Inr None, divisors)
                  | Some key \<Rightarrow>
                      if threshold \<le> max_similarity \<and> key \<noteq> [] then
                        (case redis_get db key of
                           None \<Rightarrow> (Inl TypeError, divisors)
                         | Some Empty \<Rightarrow> (Inl JSONDecodeError, divisors)
                         | Some Garbage \<Rightarrow> (Inl JSONDecodeError, divisors)
                         | Some (Json data) \<Rightarrow>
                             (case results data of
                                None \<Rightarrow> (Inl KeyError, divisors)
                              | Some rs \<Rightarrow> (Inr (Some rs), divisors)))
                      else (Inr None, divisors))))"

text \<open>For stating what \<open>get\<close> computes: the cosine similarity between the query embedding and
  the embedding stored under a key (\<open>None\<close> when there is none, or it is \<open>nan\<close>), the result
  set stored under a key, and whether the scan can read an entry without raising.\<close>

definition stored_similarity :: "redis \<Rightarrow> real list \<Rightarrow> string \<Rightarrow> real option" where
  "stored_similarity db query_embedding key =
     (case redis_get db key of
        Some (Json data) \<Rightarrow>
          (case embedding data of
             Some cached_embedding \<Rightarrow>
               (case np_dot query_embedding cached_embedding of
                  Inr d \<Rightarrow> np_divide d (divisor query_embedding cached_embedding)
                | Inl e \<Rightarrow> None)
           | None \<Rightarrow> None)
      | _ \<Rightarrow> None)"

definition stored_results :: "redis \<Rightarrow> string \<Rightarrow> SearchResult list option" where
  "stored_results db key =
     (case redis_get db key of Some (Json data) \<Rightarrow> results data | _ \<Rightarrow> None)"

definition readable :: "redis \<Rightarrow> real list \<Rightarrow> string \<Rightarrow> bool" where
  "readable db query_embedding key =
     (case redis_get db key of
        Some (Json data) \<Rightarrow>
          (case embedding data of
             Some cached_embedding \<Rightarrow>
               length cached_embedding = length query_embedding \<and> results data \<noteq> None
           | None \<Rightarrow> False)
      | _ \<Rightarrow> False)"

text \<open>The store without the entries whose value is empty, and the entries the scan cannot
  decode: bytes that are not JSON, or a JSON object without \<open>"embedding"\<close>.\<close>

definition drop_empty :: "redis \<Rightarrow> redis" where
  "drop_empty db = filter (\<lambda>(key, v). v \<noteq> Empty) db"

definition malformed :: "redis \<Rightarrow> string \<Rightarrow> bool" where
  "malformed db key =
     (case redis_get db key of
        Some Garbage \<Rightarrow> True
      | Some (Json data) \<Rightarrow> embedding data = None
      | _ \<Rightarrow> False)"

section \<open>Lexical index (\<open>bm25_store.py\<close>)\<close>

text \<open>The attributes of a \<open>BM25Okapi\<close> object that the store reads and writes.\<close>

record bm25 =
  corpus :: "string list list"
  idf :: "(string \<times> real) list"
  doc_len :: "nat list"
  doc_freqs :: "(string \<times> nat) list list"

text \<open>The libraries the store calls are parameters: \<open>str.lower\<close>, nltk's \<open>word_tokenize\<close>,
  and from \<open>rank_bm25\<close> the constructor \<open>BM25Okapi(tokenized_docs)\<close>, which may raise, and
  \<open>get_scores(query_tokens)\<close>, one score per document of the corpus.\<close>

record library =
  str_lower :: "string \<Rightarrow> string"
  word_tokenize :: "string \<Rightarrow> string list"
  BM25Okapi :: "string list list \<Rightarrow> error + bm25"
  get_scores :: "bm25 \<Rightarrow> string list \<Rightarrow> real list"

text \<open>A document handed to \<open>build_index\<close> is a dict: \<open>doc["content"]\<close> raises when the key is
  missing, the other three are read with \<open>doc.get\<close> and a default.\<close>

record document =
  doc_content :: "string option"
  doc_metadata :: "(string \<times> string) list option"
  doc_document_id :: "string option"
  doc_chunk_id :: "string option"

text \<open>The values of \<open>self.doc_mapping\<close>.\<close>

record doc_info =
  info_content :: string
  info_metadata :: "(string \<times> string) list"
  info_document_id :: string
  info_chunk_id :: string

text \<open>What is stored under the Redis keys \<open>"bm25_index"\<close> and \<open>"bm25_documents"\<close>: nothing,
  bytes that \<open>pickle.loads\<close> rejects, or a pickled value. The pickled index is a dict whose
  four keys may each be missing.\<close>

record bm25_dict =
  dict_corpus :: "string list list option"
  dict_idf :: "(string \<times> real) list option"
  dict_doc_len :: "nat list option"
  dict_doc_freqs :: "(string \<times> nat) list list option"

datatype 'a pickled = Unreadable | Pickled 'a

record snapshot =
  bm25_index_key :: "bm25_dict pickled option"
  bm25_documents_key :: "(nat \<rightharpoonup> doc_info) pickled option"

text \<open>The state of a \<open>BM25Store\<close>. \<open>bm25_index = None\<close> is Python's \<open>None\<close>; an index object
  is always true under \<open>not\<close>.\<close>

record BM25Store =
  redis_snapshot :: snapshot
  bm25_index :: "bm25 option"
  store_documents :: "document list"
  doc_mapping :: "nat \<rightharpoonup> doc_info"

text \<open>The loop \<open>for i, doc in enumerate(documents)\<close> of \<open>build_index\<close>. \<open>self.doc_mapping\<close> is not
  cleared first: entries of an earlier build beyond the new length stay.\<close>

fun index_documents ::
  "library \<Rightarrow> nat \<Rightarrow> document list \<Rightarrow> string list list \<times> (nat \<rightharpoonup> doc_info)
     \<Rightarrow> error + string list list \<times> (nat \<rightharpoonup> doc_info)" where
  "index_documents lib i [] acc = Inr acc"
| "index_documents lib i (doc # rest) (tokenized_docs, mapping) =
     (case doc_content doc of
        None \<Rightarrow> Inl KeyError
      | Some text \<Rightarrow>
          index_documents lib (i + 1) rest
            (tokenized_docs @ [word_tokenize lib (str_lower lib text)],
             mapping(i \<mapsto>
               \<lparr>info_content = text,
                info_metadata = (case doc_metadata doc of None \<Rightarrow> [] | Some m \<Rightarrow> m),
                info_document_id = (case doc_document_id doc of None \<Rightarrow> [] | Some d \<Rightarrow> d),
                info_chunk_id = (case doc_chunk_id doc of None \<Rightarrow> [] | Some c \<Rightarrow> c)\<rparr>)))"

text \<open>\<open>_save_to_redis\<close>.\<close>

definition save_to_redis :: "BM25Store \<Rightarrow> BM25Store" where
  "save_to_redis st =
     (case bm25_index st of
        None \<Rightarrow> st
      | Some index \<Rightarrow>
          st\<lparr>redis_snapshot :=
               \<lparr>bm25_index_key =
                  Some (Pickled \<lparr>dict_corpus = Some (corpus index), dict_idf = Some (idf index),
                                  dict_doc_len = Some (doc_len index),
                                  dict_doc_freqs = Some (doc_freqs index)\<rparr>),
                bm25_documents_key = Some (Pickled (doc_mapping st))\<rparr>\<rparr>)"

text \<open>\<open>build_index\<close>.\<close>

definition build_index :: "library \<Rightarrow> BM25Store \<Rightarrow> document list \<Rightarrow> error + BM25Store" where
  "build_index lib st docs =
     (case index_documents lib 0 docs ([], doc_mapping st) of
        Inl e \<Rightarrow> Inl e
      | Inr (tokenized_docs, mapping) \<Rightarrow>
          (case BM25Okapi lib tokenized_docs of
             Inl e \<Rightarrow> Inl e
           | Inr index \<Rightarrow>
               Inr (save_to_redis
                      (st\<lparr>store_documents := docs, doc_mapping := mapping,
                          bm25_index := Some index\<rparr>))))"

text \<open>\<open>_load_from_redis\<close>. The whole body is inside \<open>try ... except Exception: pass\<close>: an
  exception ends the load and keeps every assignment made before it. The second half, the
  document mapping, is reached only when the first half did not raise.\<close>

definition load_documents :: "BM25Store \<Rightarrow> BM25Store" where
  "load_documents st =
     (case bm25_documents_key (redis_snapshot st) of
        None \<Rightarrow> st
      | Some Unreadable \<Rightarrow> st
      | Some (Pickled mapping) \<Rightarrow> st\<lparr>doc_mapping := mapping\<rparr>)"

definition load_from_redis :: "library \<Rightarrow> BM25Store \<Rightarrow> BM25Store" where
  "load_from_redis lib st =
     (case bm25_index_key (redis_snapshot st) of
        None \<Rightarrow> load_documents st
      | Some Unreadable \<Rightarrow> st
      | Some (Pickled bm25_dict) \<Rightarrow>
          (case dict_corpus bm25_dict of
             None \<Rightarrow> st
           | Some c \<Rightarrow>
               (case BM25Okapi lib c of
                  Inl e \<Rightarrow> st
                | Inr index \<Rightarrow>
                    let st1 = st\<lparr>bm25_index := Some index\<rparr> in
                    (case dict_idf bm25_dict of
                       None \<Rightarrow> st1
                     | Some i \<Rightarrow>
                         let st2 = st\<lparr>bm25_index := Some (index\<lparr>idf := i\<rparr>)\<rparr> in
                         (case dict_doc_len bm25_dict of
                            None \<Rightarrow> st2
                          | Some l \<Rightarrow>
                              let st3 = st\<lparr>bm25_index := Some (index\<lparr>idf := i, doc_len := l\<rparr>)\<rparr> in
                              (case dict_doc_freqs bm25_dict of
                                 None \<Rightarrow> st3
                               | Some f \<Rightarrow>
                                   load_documents
                                     (st\<lparr>bm25_index :=
                                          Some (index\<lparr>idf := i, doc_len := l,
                                                     doc_freqs := f\<rparr>)\<rparr>)))))))"

text \<open>The result object \<open>search\<close> builds for a document.\<close>

definition lexical_result :: "doc_info \<Rightarrow> real \<Rightarrow> SearchResult" where
  "lexical_result info s =
     \<lparr>content = info_content info, metadata = info_metadata info, score = s, source = ''bm25''\<rparr>"

text \<open>The loop \<open>for idx in top_indices\<close>: only documents with a positive score are kept, and
  \<open>self.doc_mapping[idx]\<close> raises on a missing index.\<close>

fun collect :: "(nat \<rightharpoonup> doc_info) \<Rightarrow> real list \<Rightarrow> nat list \<Rightarrow> error + SearchResult list" where
  "collect mapping scores [] = Inr []"
| "collect mapping scores (idx # rest) =
     (if 0 < scores ! idx then
        (case mapping idx of
           None \<Rightarrow> Inl KeyError
         | Some info \<Rightarrow>
             (case collect mapping scores rest of
                Inl e \<Rightarrow> Inl e
              | Inr rs \<Rightarrow> Inr (lexical_result info (scores ! idx) # rs)))
      else collect mapping scores rest)"

text \<open>\<open>top_indices\<close>: the indices \<open>range(len(scores))\<close> sorted by score, descending and stable,
  cut to \<open>top_k\<close>.\<close>

definition top_indices :: "real list \<Rightarrow> int \<Rightarrow> nat list" where
  "top_indices scores top_k = py_take top_k (sort_desc (\<lambda>i. scores ! i) [0..<length scores])"

text \<open>\<open>search\<close>. The store may change (the lazy load), so the new state is returned beside
  the results or the exception.\<close>

definition search :: "library \<Rightarrow> BM25Store \<Rightarrow> string \<Rightarrow> int \<Rightarrow> BM25Store \<times> (error + SearchResult list)" where
  "search lib st query top_k =
     (let st' = (if bm25_index st = None then load_from_redis lib st else st) in
      case bm25_index st' of
        None \<Rightarrow> (st', Inr [])
      | Some index \<Rightarrow>
          let query_tokens = word_tokenize lib (str_lower lib query);
              scores = get_scores lib index query_tokens
          in (st', collect (doc_mapping st') scores (top_indices scores top_k)))"

subsection \<open>The BM25 engine of the specification\<close>

text \<open>Modelled from the spec: the class \<open>BM25Okapi\<close> of the package \<open>rank_bm25\<close>, which the store
  only calls. Section 4.1 of the specification describes the engine: \<open>build\<close> computes per
  document its length and term counts, per term the document frequency and
  \<open>idf(term) = ln((N - df + 0.5)/(df + 0.5) + 1)\<close> clamped to a small positive floor;
  \<open>score\<close> adds, for each query term present in the document,
  \<open>idf(term) * tf * (k1 + 1) / (tf + k1 * (1 - b + b * len / avg_len))\<close> with \<open>k1 = 1.5\<close> and
  \<open>b = 0.75\<close>. The floor is a parameter; the tokenizer and the lower-casing stay parameters.
  The quotient \<open>len / avg_len\<close> is evaluated only for a term present in the document, and
  \<open>build\<close> divides nothing by the number of documents.\<close>

definition spec_idf :: "real \<Rightarrow> string list list \<Rightarrow> string \<Rightarrow> real" where
  "spec_idf floor_value docs t =
     (let n = real (length docs);
          df = real (length (filter (\<lambda>d. t \<in> set d) docs))
      in max floor_value (ln ((n - df + 0.5) / (df + 0.5) + 1)))"

definition spec_build :: "real \<Rightarrow> string list list \<Rightarrow> error + bm25" where
  "spec_build floor_value docs =
     Inr \<lparr>corpus = docs,
          idf = map (\<lambda>t. (t, spec_idf floor_value docs t)) (remdups (concat docs)),
          doc_len = map length docs,
          doc_freqs = map (\<lambda>d. map (\<lambda>t. (t, count_list d t)) (remdups d)) docs\<rparr>"

definition spec_score :: "bm25 \<Rightarrow> string list \<Rightarrow> (string \<times> nat) list \<times> nat \<Rightarrow> real" where
  "spec_score index query_tokens d =
     (let avg_len = real (sum_list (doc_len index)) / real (length (doc_len index)) in
      \<Sum>t\<leftarrow>query_tokens.
        (case map_of (fst d) t of
           None \<Rightarrow> 0
         | Some tf \<Rightarrow>
             (case map_of (idf index) t of
                None \<Rightarrow> 0
              | Some w \<Rightarrow>
                  w * (real tf * (1.5 + 1)) /
                    (real tf + 1.5 * (1 - 0.75 + 0.75 * real (snd d) / avg_len)))))"

definition spec_get_scores :: "bm25 \<Rightarrow> string list \<Rightarrow> real list" where
  "spec_get_scores index query_tokens =
     map (spec_score index query_tokens) (zip (doc_freqs index) (doc_len index))"

definition spec_library :: "real \<Rightarrow> (string \<Rightarrow> string) \<Rightarrow> (string \<Rightarrow> string list) \<Rightarrow> library" where
  "spec_library floor_value lower_fn tokenizer =
     \<lparr>str_lower = lower_fn, word_tokenize = tokenizer,
      BM25Okapi = spec_build floor_value, get_scores = spec_get_scores\<rparr>"

section \<open>Orchestrator (\<open>HybridRetriever.retrieve\<close>)\<close>

text \<open>The collaborators of \<open>retrieve\<close> are state transformers over everything they can
  touch (cache store, indexes, result objects), each returning a value or an exception.
  \<open>retrieve\<close> records the stages it runs. \<open>asyncio.gather\<close> starts both searches; their
  interleaving is not modelled, the vector search is taken first.\<close>

datatype stage = CacheCheck | VectorFetch | LexicalFetch | Fuse | Rerank | CacheWrite

record ('w, 'r) collaborators =
  cache_get_of :: "'w \<Rightarrow> string \<Rightarrow> (error + 'r list option) \<times> 'w"
  cache_set_of :: "'w \<Rightarrow> string \<Rightarrow> 'r list \<Rightarrow> (error + unit) \<times> 'w"
  vector_search_of :: "'w \<Rightarrow> string \<Rightarrow> int \<Rightarrow> (error + 'r list) \<times> 'w"
  bm25_search_of :: "'w \<Rightarrow> string \<Rightarrow> int \<Rightarrow> (error + 'r list) \<times> 'w"
  fusion_of :: "'w \<Rightarrow> 'r list \<Rightarrow> 'r list \<Rightarrow> (error + 'r list) \<times> 'w"
  rerank_of :: "'w \<Rightarrow> string \<Rightarrow> 'r list \<Rightarrow> int \<Rightarrow> (error + 'r list) \<times> 'w"

text \<open>Steps 2 to 5 of \<open>retrieve\<close>, run after a miss or without the cache.\<close>

definition retrieve_pipeline ::
  "('w, 'r) collaborators \<Rightarrow> 'w \<Rightarrow> string \<Rightarrow> int \<Rightarrow> int \<Rightarrow> bool
     \<Rightarrow> (error + 'r list) \<times> 'w \<times> stage list" where
  "retrieve_pipeline c w query top_k rerank_top_k use_cache =
     (let (vector_results, w1) = vector_search_of c w query top_k;
          (bm25_results, w2) = bm25_search_of c w1 query top_k
      in
      case vector_results of
        Inl e \<Rightarrow> (Inl e, w2, [VectorFetch, LexicalFetch])
      | Inr vs \<Rightarrow>
          (case bm25_results of
             Inl e \<Rightarrow> (Inl e, w2, [VectorFetch, LexicalFetch])
           | Inr bs \<Rightarrow>
               (case fusion_of c w2 vs bs of
                  (Inl e, w3) \<Rightarrow> (Inl e, w3, [VectorFetch, LexicalFetch, Fuse])
                | (Inr fused_results, w3) \<Rightarrow>
                    (case rerank_of c w3 query fused_results rerank_top_k of
                       (Inl e, w4) \<Rightarrow> (Inl e, w4, [VectorFetch, LexicalFetch, Fuse, Rerank])
                     | (Inr reranked_results, w4) \<Rightarrow>
                         if use_cache then
                           (case cache_set_of c w4 query reranked_results of
                              (Inl e, w5) \<Rightarrow>
                                (Inl e, w5, [VectorFetch, LexicalFetch, Fuse, Rerank, CacheWrite])
                            | (Inr u, w5) \<Rightarrow>
                                (Inr reranked_results, w5,
                                 [VectorFetch, LexicalFetch, Fuse, Rerank, CacheWrite]))
                         else (Inr reranked_results, w4, [VectorFetch, LexicalFetch, Fuse, Rerank])))))"

text \<open>\<open>retrieve\<close>. The test \<open>if cached_results:\<close> is Python truthiness: \<open>None\<close> and the empty
  list are both false.\<close>

definition retrieve ::
  "('w, 'r) collaborators \<Rightarrow> 'w \<Rightarrow> string \<Rightarrow> int \<Rightarrow> int \<Rightarrow> bool
     \<Rightarrow> (error + 'r list) \<times> 'w \<times> stage list" where
  "retrieve c w query top_k rerank_top_k use_cache =
     (if use_cache then
        (case cache_get_of c w query of
           (Inl e, w0) \<Rightarrow> (Inl e, w0, [CacheCheck])
         | (Inr cached_results, w0) \<Rightarrow>
             (case cached_results of
                Some (r # rs) \<Rightarrow> (Inr (r # rs), w0, [CacheCheck])
              | _ \<Rightarrow>
                  (case retrieve_pipeline c w0 query top_k rerank_top_k use_cache of
                     (res, w', stages) \<Rightarrow> (res, w', CacheCheck # stages))))
      else retrieve_pipeline c w query top_k rerank_top_k use_cache)"

section \<open>Example inputs\<close>

definition ex_heap :: heap where
  "ex_heap = (\<lambda>r. \<lparr>content = ''text'', metadata = [], score = real r / 100, source = ''hybrid''\<rparr>)"

definition ex_scores :: "real list" where
  "ex_scores = [0.2, 0.9, 0.1, 0.5, 0.3, 0.8, 0.4, 0.7, 0.6, 0]"

definition ex_predict :: "(string \<times> string) list \<Rightarrow> error + real list" where
  "ex_predict pairs = Inr (take (length pairs) ex_scores)"

definition ex_docs :: "ref list" where
  "ex_docs = [0, 1, 2, 3, 4, 5, 6, 7, 8, 9]"

definition ex_collaborators :: "(nat, nat) collaborators" where
  "ex_collaborators =
     \<lparr>cache_get_of = (\<lambda>w query. (Inr (Some []), w)),
      cache_set_of = (\<lambda>w query rs. (Inr (), Suc w)),
      vector_search_of = (\<lambda>w query top_k. (Inr [1, 2], w)),
      bm25_search_of = (\<lambda>w query top_k. (Inr [2, 3], w)),
      fusion_of = (\<lambda>w vs bs. (Inr (vs @ bs), w)),
      rerank_of = (\<lambda>w query rs top_k. (Inr (py_take top_k rs), w))\<rparr>"

definition ex_hit_collaborators :: "(nat, nat) collaborators" where
  "ex_hit_collaborators = ex_collaborators\<lparr>cache_get_of := (\<lambda>w query. (Inr (Some [4, 5]), w))\<rparr>"

definition ex_embed :: "string \<Rightarrow> error + real list" where
  "ex_embed query = Inr [1, 0, 0, 0, 0]"

definition ex_cached :: "SearchResult list" where
  "ex_cached = [\<lparr>content = ''cached text'', metadata = [(''document_id'', ''A''), (''chunk_id'', ''A_0'')],
                 score = 0.8, source = ''reranked''\<rparr>]"

definition ex_cache_db :: redis where
  "ex_cache_db =
     [(''semantic_cache:a'', Json (JsonEntry (Some [0, 1, 0, 0, 0]) (Some []))),
      (''bm25_index'', Garbage),
      (''semantic_cache:b'', Json (JsonEntry (Some [19, 5, 3, 2, 1]) (Some ex_cached)))]"

definition ex_cache_db_miss :: redis where
  "ex_cache_db_miss =
     [(''semantic_cache:c'', Json (JsonEntry (Some [9499, 3125, 58, 3, 1]) (Some ex_cached)))]"

definition ex_cache_db_empty :: redis where
  "ex_cache_db_empty = (''semantic_cache:0'', Empty) # ex_cache_db"

definition ex_cache_db_garbage :: redis where
  "ex_cache_db_garbage = ex_cache_db @ [(''semantic_cache:z'', Garbage)]"

definition ex_cache_db_nofield :: redis where
  "ex_cache_db_nofield = (''semantic_cache:0'', Json (JsonEntry None (Some ex_cached))) # ex_cache_db"

definition ex_cache_db_zero :: redis where
  "ex_cache_db_zero = [(''semantic_cache:n'', Json (JsonEntry (Some [0, 0, 0, 0, 0]) (Some ex_cached)))]"

definition ex_index :: bm25 where
  "ex_index =
     \<lparr>corpus = [[''refund'', ''policy''], [''shipping'', ''times''], [''refund'', ''form''],
                [''refund'', ''refund'']],
      idf = [(''refund'', 1), (''policy'', 1), (''shipping'', 1), (''times'', 1), (''form'', 1)],
      doc_len = [2, 2, 2, 2],
      doc_freqs = [[(''refund'', 1), (''policy'', 1)], [(''shipping'', 1), (''times'', 1)],
                   [(''refund'', 1), (''form'', 1)], [(''refund'', 2)]]\<rparr>"

definition ex_library :: library where
  "ex_library =
     \<lparr>str_lower = (\<lambda>s. s),
      word_tokenize = (\<lambda>s. [s]),
      BM25Okapi = (\<lambda>docs. Inr (ex_index\<lparr>corpus := docs\<rparr>)),
      get_scores = (\<lambda>index query_tokens.
         map (\<lambda>d. if \<exists>t\<in>set query_tokens. t \<in> set d then 1.5 else 0) (corpus index))\<rparr>"

definition ex_infos :: "doc_info list" where
  "ex_infos =
     [\<lparr>info_content = ''refund policy'', info_metadata = [(''source'', ''faq.pdf'')],
        info_document_id = ''faq'', info_chunk_id = ''faq_0''\<rparr>,
      \<lparr>info_content = ''shipping times'', info_metadata = [(''source'', ''faq.pdf'')],
        info_document_id = ''faq'', info_chunk_id = ''faq_1''\<rparr>,
      \<lparr>info_content = ''refund form'', info_metadata = [(''source'', ''faq.pdf'')],
        info_document_id = ''faq'', info_chunk_id = ''faq_2''\<rparr>,
      \<lparr>info_content = ''refund refund'', info_metadata = [(''source'', ''faq.pdf'')],
        info_document_id = ''faq'', info_chunk_id = ''faq_3''\<rparr>]"

definition ex_mapping :: "nat \<rightharpoonup> doc_info" where
  "ex_mapping i = (if i < 4 then Some (ex_infos ! i) else None)"

definition ex_snapshot_index :: bm25_dict where
  "ex_snapshot_index =
     \<lparr>dict_corpus = Some (corpus ex_index), dict_idf = Some (idf ex_index),
      dict_doc_len = Some (doc_len ex_index), dict_doc_freqs = Some (doc_freqs ex_index)\<rparr>"

definition ex_lexical_store :: BM25Store where
  "ex_lexical_store =
     \<lparr>redis_snapshot = \<lparr>bm25_index_key = Some (Pickled ex_snapshot_index),
                         bm25_documents_key = Some (Pickled ex_mapping)\<rparr>,
      bm25_index = Some ex_index, store_documents = [], doc_mapping = ex_mapping\<rparr>"

definition ex_store_partial :: BM25Store where
  "ex_store_partial =
     \<lparr>redis_snapshot = \<lparr>bm25_index_key = Some (Pickled ex_snapshot_index),
                         bm25_documents_key = Some Unreadable\<rparr>,
      bm25_index = None, store_documents = [], doc_mapping = Map.empty\<rparr>"

definition ex_result :: "string \<Rightarrow> string \<Rightarrow> string \<Rightarrow> real \<Rightarrow> string \<Rightarrow> SearchResult" where
  "ex_result doc chunk text s src =
     \<lparr>content = text, metadata = [(''document_id'', doc), (''chunk_id'', chunk)],
      score = s, source = src\<rparr>"

definition ex_fusion_heap :: heap where
  "ex_fusion_heap =
     (\<lambda>r. ex_result ''other'' ''0'' ''unused'' 0 ''vector'')
     (0 := ex_result ''A'' ''0'' ''text of A'' 0.9 ''vector'',
      1 := ex_result ''B'' ''0'' ''text of B'' 0.8 ''vector'',
      2 := ex_result ''B'' ''0'' ''other text of B'' 3.5 ''bm25'',
      3 := ex_result ''C'' ''0'' ''text of C'' 1.5 ''bm25'')"

definition ex_dup_heap :: heap where
  "ex_dup_heap =
     (\<lambda>r. \<lparr>content = ''chunk'', metadata = [(''source'', ''x.pdf'')],
           score = 0.9 - real r / 10, source = ''vector''\<rparr>)"

section \<open>Properties of the reranker\<close>

lemma rerank_loop_frame:
  "doc \<notin> fst ` set ps \<Longrightarrow> rerank_loop h ps doc = h doc"
  by (induction h ps rule: rerank_loop.induct) auto

lemma rerank_loop_at:
  "distinct (map fst ps) \<Longrightarrow> (doc, s) \<in> set ps \<Longrightarrow>
   rerank_loop h ps doc = (h doc)\<lparr>score := 0.7 * s + 0.3 * score (h doc), source := ''reranked''\<rparr>"
proof (induction ps arbitrary: h)
  case Nil
  then show ?case by simp
next
  case (Cons p rest)
  obtain d r where p: "p = (d, r)" by (cases p)
  show ?case
  proof (cases "(doc, s) = (d, r)")
    case True
    with Cons.prems p have "doc \<notin> fst ` set rest" by auto
    with True p show ?thesis by (simp add: rerank_loop_frame)
  next
    case False
    with Cons.prems p have in_rest: "(doc, s) \<in> set rest" by auto
    with Cons.prems p have ne: "doc \<noteq> d" by force
    from Cons.prems have "distinct (map fst rest)" by simp
    from Cons.IH[OF this in_rest] ne p show ?thesis by simp
  qed
qed

lemma sort_desc_sorted: "sorted_wrt (\<lambda>a b. f b \<le> f a) (sort_desc f xs)"
proof -
  have "sorted (map (\<lambda>x. - f x) (sort_key (\<lambda>x. - f x) xs))" by (rule sorted_sort_key)
  then show ?thesis by (simp add: sort_desc_def sorted_map)
qed

lemma sort_desc_set [simp]: "set (sort_desc f xs) = set xs"
  by (simp add: sort_desc_def)

lemma sort_desc_length [simp]: "length (sort_desc f xs) = length xs"
  by (simp add: sort_desc_def)

lemma sort_desc_distinct [simp]: "distinct (sort_desc f xs) = distinct xs"
  by (simp add: sort_desc_def)

lemma take_sorted_top:
  assumes "sorted_wrt (\<lambda>a b. f b \<le> f a) xs" "distinct xs" "a \<in> set (take k xs)" "b \<in> set xs - set (take k xs)"
  shows "f b \<le> f a"
proof -
  have "xs = take k xs @ drop k xs" by simp
  with assms(4) have "b \<in> set (drop k xs)" by (metis DiffE UnE set_append)
  moreover from assms(1) have "sorted_wrt (\<lambda>a b. f b \<le> f a) (take k xs @ drop k xs)" by simp
  ultimately show ?thesis using assms(3) unfolding sorted_wrt_append by blast
qed

lemma insort_key_cong_on:
  "f x = g x \<Longrightarrow> \<forall>y\<in>set ys. f y = g y \<Longrightarrow> insort_key f x ys = insort_key g x ys"
  by (induction ys) auto

lemma sort_key_cong_on:
  "\<forall>x\<in>set xs. f x = g x \<Longrightarrow> sort_key f xs = sort_key g xs"
proof (induction xs)
  case Nil
  then show ?case by simp
next
  case (Cons a xs)
  then have "sort_key f xs = sort_key g xs" by simp
  moreover from Cons.prems have "insort_key f a (sort_key g xs) = insort_key g a (sort_key g xs)"
    by (intro insort_key_cong_on) auto
  ultimately show ?case by simp
qed

lemma sort_desc_cong_on:
  "\<forall>x\<in>set xs. f x = g x \<Longrightarrow> sort_desc f xs = sort_desc g xs"
  unfolding sort_desc_def by (rule sort_key_cong_on) simp

lemma py_take_nonneg: "0 \<le> k \<Longrightarrow> py_take k xs = take (nat k) xs"
  by (simp add: py_take_def)

lemma rerank_loop_zip:
  assumes "distinct documents" "length scores = length documents" "i < length documents"
  shows "rerank_loop h (zip documents scores) (documents ! i) =
         (h (documents ! i))\<lparr>score := 0.7 * scores ! i + 0.3 * score (h (documents ! i)),
                                 source := ''reranked''\<rparr>"
proof -
  from assms have "distinct (map fst (zip documents scores))" by simp
  moreover from assms have "(documents ! i, scores ! i) \<in> set (zip documents scores)"
    by (auto simp: set_zip)
  ultimately show ?thesis by (rule rerank_loop_at)
qed

text \<open>
  Claim C10. \<open>rerank\<close> overwrites every input candidate in place: each of the \<open>n\<close> input
  objects, whether or not it is among the returned top \<open>top_k\<close>, ends with
  \<open>score = 0.7 * rerank + 0.3 * prior\<close> and \<open>source = "reranked"\<close>. The candidates are
  distinct objects and the scorer returns one score per pair.
\<close>

theorem rerank_mutates_all:
  assumes "documents \<noteq> []"
    and "predict (map (\<lambda>doc. (query, content (h doc))) documents) = Inr scores"
    and "length scores = length documents"
    and "distinct documents"
  shows "\<exists>out h' calls. rerank predict h query documents top_k = (out, h', calls) \<and>
           (\<forall>i<length documents.
              h' (documents ! i) =
                (h (documents ! i))\<lparr>score := 0.7 * scores ! i + 0.3 * score (h (documents ! i)),
                                        source := ''reranked''\<rparr>)"
  using assms by (simp add: rerank_def Let_def rerank_loop_zip)

text \<open>
  Claim C4. On an empty candidate list \<open>rerank\<close> returns the empty list, leaves every
  object untouched and never calls the scorer. On \<open>n > 0\<close> distinct candidates, with one
  raw score per pair and \<open>top_k \<ge> 0\<close>, it calls the scorer once with the whole batch and
  returns \<open>min n top_k\<close> of the candidates: the ones with the highest combined score
  \<open>0.7 * raw + 0.3 * prior\<close>, in descending order, each tagged \<open>"reranked"\<close>.
\<close>

theorem rerank_top_k:
  "rerank predict h query [] top_k = (Inr [], h, []) \<and>
   (documents \<noteq> [] \<and>
    predict (map (\<lambda>doc. (query, content (h doc))) documents) = Inr scores \<and>
    length scores = length documents \<and> distinct documents \<and> 0 \<le> top_k \<longrightarrow>
    (\<exists>out h'. rerank predict h query documents top_k =
         (Inr out, h', [map (\<lambda>doc. (query, content (h doc))) documents]) \<and>
       length out = min (length documents) (nat top_k) \<and>
       distinct out \<and> set out \<subseteq> set documents \<and>
       (\<forall>i<length documents.
          score (h' (documents ! i)) = 0.7 * scores ! i + 0.3 * score (h (documents ! i))) \<and>
       sorted_wrt (\<lambda>a b. score (h' b) \<le> score (h' a)) out \<and>
       (\<forall>a\<in>set out. \<forall>b\<in>set documents - set out. score (h' b) \<le> score (h' a)) \<and>
       (\<forall>a\<in>set out. source (h' a) = ''reranked'')))"
proof (intro conjI impI)
  show "rerank predict h query [] top_k = (Inr [], h, [])"
    by (simp add: rerank_def)
next
  assume asm: "documents \<noteq> [] \<and>
    predict (map (\<lambda>doc. (query, content (h doc))) documents) = Inr scores \<and>
    length scores = length documents \<and> distinct documents \<and> 0 \<le> top_k"
  define h' where "h' = rerank_loop h (zip documents scores)"
  define srt where "srt = sort_desc (\<lambda>x. score (h' x)) documents"
  define out where "out = take (nat top_k) srt"
  from asm have fst_zip: "map fst (zip documents scores) = documents" by simp
  from asm have run: "rerank predict h query documents top_k =
      (Inr out, h', [map (\<lambda>doc. (query, content (h doc))) documents])"
    by (simp add: rerank_def Let_def fst_zip py_take_nonneg h'_def srt_def out_def)
  have at: "h' (documents ! i) =
      (h (documents ! i))\<lparr>score := 0.7 * scores ! i + 0.3 * score (h (documents ! i)),
                              source := ''reranked''\<rparr>" if "i < length documents" for i
    unfolding h'_def using asm that by (intro rerank_loop_zip) auto
  have len: "length out = min (length documents) (nat top_k)"
    by (simp add: out_def srt_def min.commute)
  have dist: "distinct srt" using asm by (simp add: srt_def)
  then have dist_out: "distinct out" by (simp add: out_def)
  have sub: "set out \<subseteq> set documents"
    using set_take_subset[of "nat top_k" srt] by (simp add: out_def srt_def)
  have sorted_srt: "sorted_wrt (\<lambda>a b. score (h' b) \<le> score (h' a)) srt"
    unfolding srt_def by (rule sort_desc_sorted)
  then have sorted_out: "sorted_wrt (\<lambda>a b. score (h' b) \<le> score (h' a)) out"
    unfolding out_def by (rule sorted_wrt_take)
  have top: "\<forall>a\<in>set out. \<forall>b\<in>set documents - set out. score (h' b) \<le> score (h' a)"
  proof (intro ballI)
    fix a b assume "a \<in> set out" "b \<in> set documents - set out"
    then have "a \<in> set (take (nat top_k) srt)" "b \<in> set srt - set (take (nat top_k) srt)"
      by (simp_all add: out_def srt_def)
    with sorted_srt dist show "score (h' b) \<le> score (h' a)"
      by (intro take_sorted_top[where f = "\<lambda>x. score (h' x)"])
  qed
  have src: "\<forall>a\<in>set out. source (h' a) = ''reranked''"
  proof
    fix a assume "a \<in> set out"
    with sub have "a \<in> set documents" by blast
    then obtain i where "i < length documents" "a = documents ! i"
      by (metis in_set_conv_nth)
    then show "source (h' a) = ''reranked''" by (simp add: at)
  qed
  show "\<exists>out h'. rerank predict h query documents top_k =
         (Inr out, h', [map (\<lambda>doc. (query, content (h doc))) documents]) \<and>
       length out = min (length documents) (nat top_k) \<and>
       distinct out \<and> set out \<subseteq> set documents \<and>
       (\<forall>i<length documents.
          score (h' (documents ! i)) = 0.7 * scores ! i + 0.3 * score (h (documents ! i))) \<and>
       sorted_wrt (\<lambda>a b. score (h' b) \<le> score (h' a)) out \<and>
       (\<forall>a\<in>set out. \<forall>b\<in>set documents - set out. score (h' b) \<le> score (h' a)) \<and>
       (\<forall>a\<in>set out. source (h' a) = ''reranked'')"
    using run len dist_out sub sorted_out top src by (auto simp: at)
qed

lemma ex_rerank_hyps:
  "ex_docs \<noteq> []"
  "ex_predict (map (\<lambda>doc. (''q'', content (ex_heap doc))) ex_docs) = Inr ex_scores"
  "length ex_scores = length ex_docs"
  "distinct ex_docs"
  by (simp_all add: ex_predict_def ex_scores_def ex_docs_def)

text \<open>Ten fused candidates and \<open>rerank_top_k = 3\<close>: exactly three entries come back.\<close>

theorem rerank_top_k_witness:
  "\<exists>out h'. rerank ex_predict ex_heap ''q'' ex_docs 3 =
       (Inr out, h', [map (\<lambda>doc. (''q'', content (ex_heap doc))) ex_docs]) \<and>
     length out = 3 \<and>
     sorted_wrt (\<lambda>a b. score (h' b) \<le> score (h' a)) out \<and>
     (\<forall>a\<in>set out. source (h' a) = ''reranked'')"
proof -
  have "ex_docs \<noteq> [] \<and>
    ex_predict (map (\<lambda>doc. (''q'', content (ex_heap doc))) ex_docs) = Inr ex_scores \<and>
    length ex_scores = length ex_docs \<and> distinct ex_docs \<and> (0::int) \<le> 3"
    using ex_rerank_hyps by simp
  with rerank_top_k [of ex_predict ex_heap "''q''" 3 ex_docs ex_scores]
  obtain out h' where
    "rerank ex_predict ex_heap ''q'' ex_docs 3 =
       (Inr out, h', [map (\<lambda>doc. (''q'', content (ex_heap doc))) ex_docs])"
    "length out = min (length ex_docs) (nat 3)"
    "sorted_wrt (\<lambda>a b. score (h' b) \<le> score (h' a)) out"
    "\<forall>a\<in>set out. source (h' a) = ''reranked''"
    by blast
  moreover have "min (length ex_docs) (nat 3) = 3" by (simp add: ex_docs_def)
  ultimately show ?thesis by auto
qed

text \<open>Candidate 9 is not among the three returned, and is overwritten all the same.\<close>

theorem rerank_mutates_all_witness:
  "\<exists>out h' calls. rerank ex_predict ex_heap ''q'' ex_docs 3 = (out, h', calls) \<and>
     source (h' 9) = ''reranked'' \<and> score (h' 9) = 0.3 * 0.09 \<and>
     (\<forall>xs. out = Inr xs \<longrightarrow> 9 \<notin> set xs)"
proof -
  from rerank_mutates_all [of ex_docs ex_predict "''q''" ex_heap ex_scores 3] ex_rerank_hyps
  obtain out h' calls where run: "rerank ex_predict ex_heap ''q'' ex_docs 3 = (out, h', calls)"
    and all: "\<forall>i<length ex_docs.
              h' (ex_docs ! i) =
                (ex_heap (ex_docs ! i))\<lparr>score := 0.7 * ex_scores ! i + 0.3 * score (ex_heap (ex_docs ! i)),
                                        source := ''reranked''\<rparr>"
    by blast
  have "9 < length ex_docs" "ex_docs ! 9 = 9" by (simp_all add: ex_docs_def)
  with all have "h' 9 = (ex_heap 9)\<lparr>score := 0.7 * ex_scores ! 9 + 0.3 * score (ex_heap 9),
                                        source := ''reranked''\<rparr>"
    by metis
  then have "source (h' 9) = ''reranked'' \<and> score (h' 9) = 0.3 * 0.09"
    by (simp add: ex_heap_def ex_scores_def)
  moreover have "fst (rerank ex_predict ex_heap ''q'' ex_docs 3) = Inr [1, 5, 7]"
    by (simp add: rerank_def ex_predict_def ex_scores_def ex_heap_def ex_docs_def sort_desc_def py_take_def)
  with run have "out = Inr [1, 5, 7]" by simp
  ultimately show ?thesis using run by auto
qed

section \<open>Properties of the orchestrator\<close>

text \<open>
  Claim C3, as the code has it. With \<open>use_cache\<close>, a hit whose result set is not empty is
  returned at once: \<open>retrieve\<close> gives exactly that result set, the state is the one the
  cache lookup left, and no later stage runs (no vector or lexical search, no fusion, no
  rerank, no cache write). A hit whose result set is empty fails the test
  \<open>if cached_results:\<close> and is handled like a miss: the whole pipeline runs after the
  cache check.
\<close>

theorem retrieve_cache_hit:
  "(cache_get_of c w query = (Inr (Some rs), w0) \<and> rs \<noteq> [] \<longrightarrow>
      retrieve c w query top_k rerank_top_k True = (Inr rs, w0, [CacheCheck])) \<and>
   (cache_get_of c w query = (Inr (Some []), w0) \<longrightarrow>
      retrieve c w query top_k rerank_top_k True =
        (case retrieve_pipeline c w0 query top_k rerank_top_k True of
           (res, w', stages) \<Rightarrow> (res, w', CacheCheck # stages)))"
  by (cases rs) (simp_all add: retrieve_def)

theorem retrieve_cache_hit_witness:
  "retrieve ex_hit_collaborators 0 ''q'' 20 5 True = (Inr [4, 5], 0, [CacheCheck]) \<and>
   retrieve ex_collaborators 0 ''q'' 20 5 True =
        (case retrieve_pipeline ex_collaborators 0 ''q'' 20 5 True of
           (res, w', stages) \<Rightarrow> (res, w', CacheCheck # stages))"
proof -
  have 1: "cache_get_of ex_hit_collaborators 0 ''q'' = (Inr (Some [4, 5]), 0) \<and> [4, 5::nat] \<noteq> []"
    by (simp add: ex_hit_collaborators_def)
  have 2: "cache_get_of ex_collaborators 0 ''q'' = (Inr (Some []), 0)"
    by (simp add: ex_collaborators_def)
  from 1 retrieve_cache_hit [of ex_hit_collaborators 0 "''q''" "[4, 5]" 0 20 5]
  have "retrieve ex_hit_collaborators 0 ''q'' 20 5 True = (Inr [4, 5], 0, [CacheCheck])" by blast
  moreover from 2 retrieve_cache_hit [of ex_collaborators 0 "''q''" "[4, 5]" 0 20 5]
  have "retrieve ex_collaborators 0 ''q'' 20 5 True =
        (case retrieve_pipeline ex_collaborators 0 ''q'' 20 5 True of
           (res, w', stages) \<Rightarrow> (res, w', CacheCheck # stages))" by blast
  ultimately show ?thesis by blast
qed

text \<open>The cache answers with a stored, empty result set; \<open>retrieve\<close> runs every stage and
  returns what the reranker gave, not the cached set.\<close>

theorem retrieve_empty_hit_counterexample:
  "cache_get_of ex_collaborators 0 ''q'' = (Inr (Some []), 0) \<and>
   retrieve ex_collaborators 0 ''q'' 20 5 True =
     (Inr [1, 2, 2, 3], 1, [CacheCheck, VectorFetch, LexicalFetch, Fuse, Rerank, CacheWrite])"
  by (simp add: retrieve_def retrieve_pipeline_def ex_collaborators_def py_take_def)

section \<open>Properties of the semantic cache\<close>

lemma scan_readable:
  assumes "\<forall>key\<in>set keys. readable db q key"
  shows "\<exists>m' b' divs. scan db q keys (m, b) = (Inr (m', b'), divs) \<and> m \<le> m' \<and>
           (\<forall>key\<in>set keys. \<forall>s. stored_similarity db q key = Some s \<longrightarrow> s \<le> m') \<and>
           ((m' = m \<and> b' = b) \<or>
            (m < m' \<and> (\<exists>key\<in>set keys. b' = Some key \<and> stored_similarity db q key = Some m')))"
  using assms
proof (induction keys arbitrary: m b)
  case Nil
  then show ?case by simp
next
  case (Cons key keys)
  from Cons.prems have rd: "readable db q key" and rest: "\<forall>key\<in>set keys. readable db q key"
    by simp_all
  from rd obtain data e where get: "redis_get db key = Some (Json data)"
    and emb: "embedding data = Some e" and len: "length e = length q"
    by (auto simp: readable_def split: option.splits blob.splits)
  define d where "d = (\<Sum>(x, y)\<leftarrow>zip q e. x * y)"
  have dot: "np_dot q e = Inr d" using len by (simp add: np_dot_def d_def)
  have sim: "stored_similarity db q key = np_divide d (divisor q e)"
    by (simp add: stored_similarity_def get emb dot)
  define st' where "st' = (case np_divide d (divisor q e) of
                                 None \<Rightarrow> (m, b)
                               | Some s \<Rightarrow> if m < s then (s, Some key) else (m, b))"
  obtain m1 b1 where st'_eq: "st' = (m1, b1)" by (cases st')
  from Cons.IH[OF rest, of m1 b1] obtain m' b' divs where
    run: "scan db q keys (m1, b1) = (Inr (m', b'), divs)" and le: "m1 \<le> m'"
    and ub: "\<forall>key\<in>set keys. \<forall>s. stored_similarity db q key = Some s \<longrightarrow> s \<le> m'"
    and best: "(m' = m1 \<and> b' = b1) \<or>
            (m1 < m' \<and> (\<exists>key\<in>set keys. b' = Some key \<and> stored_similarity db q key = Some m'))"
    by blast
  have step: "scan db q (key # keys) (m, b) = (Inr (m', b'), divisor q e # divs)"
    using run st'_eq by (simp add: get emb dot Let_def st'_def)
  have m1: "m \<le> m1" "\<forall>s. stored_similarity db q key = Some s \<longrightarrow> s \<le> m1"
    "(m1 = m \<and> b1 = b) \<or> (m < m1 \<and> b1 = Some key \<and> stored_similarity db q key = Some m1)"
    using st'_eq by (auto simp: st'_def sim split: option.splits if_splits)
  have "m \<le> m'" using m1(1) le by simp
  moreover have "\<forall>k\<in>set (key # keys). \<forall>s. stored_similarity db q k = Some s \<longrightarrow> s \<le> m'"
    using ub m1(2) le by force
  moreover have "(m' = m \<and> b' = b) \<or>
            (m < m' \<and> (\<exists>k\<in>set (key # keys). b' = Some k \<and> stored_similarity db q k = Some m'))"
    using best m1(3) m1(1) le by auto
  ultimately show ?case using step by blast
qed

lemma redis_keys_nonempty: "key \<in> set (redis_keys db cache_prefix) \<Longrightarrow> key \<noteq> []"
  by (auto simp: redis_keys_def cache_prefix_def)

text \<open>
  Claim C2. With a positive threshold (the default is 0.95), a query whose embedding is
  available and a store whose cache entries are all readable, \<open>get\<close> is a hit exactly when
  the greatest similarity reaches the threshold, the boundary included: if some entry has
  similarity \<open>\<ge> threshold\<close>, \<open>get\<close> returns the result set stored with an entry of greatest
  similarity; if every entry is below the threshold, \<open>get\<close> returns \<open>None\<close>, a value and not
  an exception.
\<close>

theorem cache_get_gate:
  assumes "0 < threshold"
    and "get_embedding query = Inr q"
    and "\<forall>key\<in>set (redis_keys db cache_prefix). readable db q key"
  shows "((\<exists>key\<in>set (redis_keys db cache_prefix). \<exists>s.
             stored_similarity db q key = Some s \<and> threshold \<le> s) \<longrightarrow>
          (\<exists>key\<in>set (redis_keys db cache_prefix). \<exists>s rs.
             stored_similarity db q key = Some s \<and> threshold \<le> s \<and>
             (\<forall>k\<in>set (redis_keys db cache_prefix). \<forall>s'.
                stored_similarity db q k = Some s' \<longrightarrow> s' \<le> s) \<and>
             stored_results db key = Some rs \<and>
             fst (cache_get threshold get_embedding db query) = Inr (Some rs))) \<and>
         ((\<forall>key\<in>set (redis_keys db cache_prefix). \<forall>s.
             stored_similarity db q key = Some s \<longrightarrow> s < threshold) \<longrightarrow>
          fst (cache_get threshold get_embedding db query) = Inr None)"
proof -
  define keys where "keys = redis_keys db cache_prefix"
  from scan_readable[of keys db q 0 None] assms(3) obtain m' b' divs where
    run: "scan db q keys (0, None) = (Inr (m', b'), divs)"
    and ub: "\<forall>key\<in>set keys. \<forall>s. stored_similarity db q key = Some s \<longrightarrow> s \<le> m'"
    and best: "(m' = 0 \<and> b' = None) \<or>
            (0 < m' \<and> (\<exists>key\<in>set keys. b' = Some key \<and> stored_similarity db q key = Some m'))"
    unfolding keys_def by blast
  have get_eq: "fst (cache_get threshold get_embedding db query) =
      (if keys = [] then Inr None
       else case b' of
              None \<Rightarrow> Inr None
            | Some key \<Rightarrow>
                if threshold \<le> m' \<and> key \<noteq> [] then
                  (case redis_get db key of
                     None \<Rightarrow> Inl TypeError
                   | Some Empty \<Rightarrow> Inl JSONDecodeError
                   | Some Garbage \<Rightarrow> Inl JSONDecodeError
                   | Some (Json data) \<Rightarrow>
                       (case results data of None \<Rightarrow> Inl KeyError | Some rs \<Rightarrow> Inr (Some rs)))
                else Inr None)"
    using run assms(2)
    by (simp add: cache_get_def Let_def keys_def[symmetric]
             split: option.splits blob.splits)
  have hit: "\<exists>key\<in>set keys. \<exists>s rs.
             stored_similarity db q key = Some s \<and> threshold \<le> s \<and>
             (\<forall>k\<in>set keys. \<forall>s'. stored_similarity db q k = Some s' \<longrightarrow> s' \<le> s) \<and>
             stored_results db key = Some rs \<and>
             fst (cache_get threshold get_embedding db query) = Inr (Some rs)"
    if ex: "\<exists>key\<in>set keys. \<exists>s. stored_similarity db q key = Some s \<and> threshold \<le> s"
  proof -
    from ex obtain k0 s0 where k0: "k0 \<in> set keys" "stored_similarity db q k0 = Some s0" "threshold \<le> s0"
      by blast
    with ub have "s0 \<le> m'" by blast
    with k0(3) assms(1) have pos: "0 < m'" and th: "threshold \<le> m'" by simp_all
    with best obtain key where key: "key \<in> set keys" "b' = Some key"
      "stored_similarity db q key = Some m'" by auto
    from key(1) have ne: "key \<noteq> []" unfolding keys_def by (rule redis_keys_nonempty)
    from key(1) assms(3) have "readable db q key" unfolding keys_def by blast
    then obtain data rs where get: "redis_get db key = Some (Json data)" and res: "results data = Some rs"
      by (auto simp: readable_def split: option.splits blob.splits)
    have "stored_results db key = Some rs" by (simp add: stored_results_def get res)
    moreover have "fst (cache_get threshold get_embedding db query) = Inr (Some rs)"
      using key(1) key(2) th ne get res by (auto simp: get_eq)
    ultimately show ?thesis using key th ub by blast
  qed
  have miss: "fst (cache_get threshold get_embedding db query) = Inr None"
    if all: "\<forall>key\<in>set keys. \<forall>s. stored_similarity db q key = Some s \<longrightarrow> s < threshold"
  proof (cases b')
    case None
    then show ?thesis by (simp add: get_eq)
  next
    case (Some key)
    with best have "key \<in> set keys" "stored_similarity db q key = Some m'" by auto
    with all have "m' < threshold" by blast
    with Some show ?thesis by (simp add: get_eq)
  qed
  from hit miss show ?thesis unfolding keys_def by blast
qed

lemma sqrt_400: "sqrt 400 = 20"
  by (rule real_sqrt_unique) simp_all

lemma sqrt_10_8: "sqrt 100000000 = 10000"
  by (rule real_sqrt_unique) simp_all

lemma ex_keys: "redis_keys ex_cache_db cache_prefix = [''semantic_cache:a'', ''semantic_cache:b'']"
  "redis_keys ex_cache_db_miss cache_prefix = [''semantic_cache:c'']"
  by (simp_all add: redis_keys_def ex_cache_db_def ex_cache_db_miss_def cache_prefix_def)

lemma ex_sims:
  "stored_similarity ex_cache_db [1, 0, 0, 0, 0] ''semantic_cache:a'' = Some 0"
  "stored_similarity ex_cache_db [1, 0, 0, 0, 0] ''semantic_cache:b'' = Some (19 / 20)"
  "stored_similarity ex_cache_db_miss [1, 0, 0, 0, 0] ''semantic_cache:c'' = Some (9499 / 10000)"
  by (simp_all add: stored_similarity_def redis_get_def ex_cache_db_def ex_cache_db_miss_def
        np_dot_def np_divide_def divisor_def np_norm_def sqrt_400 sqrt_10_8)

lemma ex_readable:
  "\<forall>key\<in>set (redis_keys ex_cache_db cache_prefix). readable ex_cache_db [1, 0, 0, 0, 0] key"
  "\<forall>key\<in>set (redis_keys ex_cache_db_miss cache_prefix). readable ex_cache_db_miss [1, 0, 0, 0, 0] key"
  unfolding ex_keys
  by (simp_all add: readable_def redis_get_def ex_cache_db_def ex_cache_db_miss_def)

text \<open>Threshold 0.95: an entry at similarity exactly 0.95 is a hit, one at 0.9499 is a miss.\<close>

theorem cache_get_gate_witness:
  "fst (cache_get (19 / 20) ex_embed ex_cache_db ''what is x'') = Inr (Some ex_cached) \<and>
   fst (cache_get (19 / 20) ex_embed ex_cache_db_miss ''what is x'') = Inr None"
proof -
  have th: "(0::real) < 19 / 20" by simp
  have emb: "ex_embed ''what is x'' = Inr [1, 0, 0, 0, 0]" by (simp add: ex_embed_def)
  note hit = cache_get_gate [of "19 / 20" ex_embed "''what is x''" "[1, 0, 0, 0, 0]" ex_cache_db,
      OF th emb ex_readable(1), THEN conjunct1]
  note miss = cache_get_gate [of "19 / 20" ex_embed "''what is x''" "[1, 0, 0, 0, 0]" ex_cache_db_miss,
      OF th emb ex_readable(2), THEN conjunct2]
  have "''semantic_cache:b'' \<in> set (redis_keys ex_cache_db cache_prefix)"
    by (simp add: ex_keys)
  then have "\<exists>key\<in>set (redis_keys ex_cache_db cache_prefix). \<exists>s.
          stored_similarity ex_cache_db [1, 0, 0, 0, 0] key = Some s \<and> 19 / 20 \<le> s"
    using ex_sims(2) by (intro bexI[of _ "''semantic_cache:b''"] exI[of _ "19 / 20"]) simp_all
  with hit obtain key s rs where
    key: "key \<in> set (redis_keys ex_cache_db cache_prefix)"
      "stored_similarity ex_cache_db [1, 0, 0, 0, 0] key = Some s" "19 / 20 \<le> s"
      "stored_results ex_cache_db key = Some rs"
      "fst (cache_get (19 / 20) ex_embed ex_cache_db ''what is x'') = Inr (Some rs)"
    by blast
  from key(1,2,3) have "key = ''semantic_cache:b''" by (auto simp: ex_keys ex_sims)
  with key(4) have "rs = ex_cached"
    by (simp add: stored_results_def redis_get_def ex_cache_db_def)
  with key(5) have 1: "fst (cache_get (19 / 20) ex_embed ex_cache_db ''what is x'') = Inr (Some ex_cached)"
    by simp
  have "\<forall>key\<in>set (redis_keys ex_cache_db_miss cache_prefix). \<forall>s.
          stored_similarity ex_cache_db_miss [1, 0, 0, 0, 0] key = Some s \<longrightarrow> s < 19 / 20"
    by (simp add: ex_keys ex_sims)
  with miss have 2: "fst (cache_get (19 / 20) ex_embed ex_cache_db_miss ''what is x'') = Inr None"
    by blast
  from 1 2 show ?thesis by blast
qed

lemma scan_malformed:
  "key \<in> set keys \<Longrightarrow> malformed db key \<Longrightarrow> \<exists>e divs. scan db q keys st = (Inl e, divs)"
proof (induction keys arbitrary: st)
  case Nil
  then show ?case by simp
next
  case (Cons k keys)
  obtain m b where st: "st = (m, b)" by (cases st)
  show ?case
  proof (cases "malformed db k")
    case True
    then show ?thesis unfolding st
      by (auto simp: malformed_def split: option.splits blob.splits)
  next
    case False
    with Cons.prems have "key \<in> set keys" by auto
    from Cons.IH[OF this Cons.prems(2)] have rest: "\<And>st. \<exists>e divs. scan db q keys st = (Inl e, divs)"
      by blast
    show ?thesis
    proof (cases "redis_get db k")
      case None
      then show ?thesis unfolding st using rest by simp
    next
      case (Some v)
      show ?thesis
      proof (cases v)
        case Empty
        with Some show ?thesis unfolding st using rest by simp
      next
        case Garbage
        with Some show ?thesis unfolding st by simp
      next
        case (Json data)
        show ?thesis
        proof (cases "embedding data")
          case None
          with Some Json show ?thesis unfolding st by simp
        next
          case (Some e)
          show ?thesis
          proof (cases "np_dot q e")
            case (Inl err)
            with \<open>redis_get db k = Some v\<close> Json Some show ?thesis unfolding st by simp
          next
            case (Inr d)
            define st' where "st' = (case np_divide d (divisor q e) of
                                 None \<Rightarrow> (m, b)
                               | Some s \<Rightarrow> if m < s then (s, Some k) else (m, b))"
            from rest[of st'] obtain err divs where "scan db q keys st' = (Inl err, divs)" by blast
            with \<open>redis_get db k = Some v\<close> Json Some Inr show ?thesis unfolding st
              by (simp add: Let_def st'_def)
          qed
        qed
      qed
    qed
  qed
qed

lemma cache_get_malformed:
  assumes "get_embedding query = Inr q" "key \<in> set (redis_keys db cache_prefix)" "malformed db key"
  shows "\<exists>e. fst (cache_get threshold get_embedding db query) = Inl e"
proof -
  from scan_malformed[OF assms(2,3)] obtain e divs where
    "scan db q (redis_keys db cache_prefix) (0, None) = (Inl e, divs)" by blast
  moreover from assms(2) have "redis_keys db cache_prefix \<noteq> []" by auto
  ultimately show ?thesis using assms(1) by (simp add: cache_get_def Let_def)
qed

lemma drop_empty_get:
  "redis_get db key \<noteq> Some Empty \<Longrightarrow> redis_get (drop_empty db) key = redis_get db key"
proof (cases "redis_get db key")
  case None
  then have "key \<notin> fst ` set db" by (simp add: redis_get_def map_of_eq_None_iff)
  then have "key \<notin> fst ` set (drop_empty db)" by (auto simp: drop_empty_def)
  then have "map_of (drop_empty db) key = None" by (metis map_of_eq_None_iff)
  then show ?thesis using None by (simp add: redis_get_def)
next
  case (Some v)
  assume "redis_get db key \<noteq> Some Empty"
  with Some have "v \<noteq> Empty" by simp
  with Some show ?thesis
    unfolding redis_get_def drop_empty_def
    using map_of_filter_in[of db key v "\<lambda>k v. v \<noteq> Empty"] by simp
qed

lemma drop_empty_fst:
  "distinct (map fst db) \<Longrightarrow>
   map fst (drop_empty db) = filter (\<lambda>key. redis_get db key \<noteq> Some Empty) (map fst db)"
proof (induction db)
  case Nil
  then show ?case by (simp add: drop_empty_def)
next
  case (Cons p db)
  obtain k v where p: "p = (k, v)" by (cases p)
  from Cons.prems p have notin: "k \<notin> fst ` set db" and dist: "distinct (map fst db)" by auto
  have same: "filter (\<lambda>key. redis_get (p # db) key \<noteq> Some Empty) (map fst db) =
              filter (\<lambda>key. redis_get db key \<noteq> Some Empty) (map fst db)"
    using notin by (intro filter_cong) (auto simp: redis_get_def p)
  from Cons.IH[OF dist] same show ?case
    by (simp add: drop_empty_def p redis_get_def)
qed

lemma drop_empty_keys:
  "distinct (map fst db) \<Longrightarrow>
   redis_keys (drop_empty db) prefix =
     filter (\<lambda>key. redis_get db key \<noteq> Some Empty) (redis_keys db prefix)"
  by (simp add: redis_keys_def drop_empty_fst conj_commute)

lemma scan_drop_empty:
  "scan db q keys st =
   scan (drop_empty db) q (filter (\<lambda>key. redis_get db key \<noteq> Some Empty) keys) st"
proof (induction keys arbitrary: st)
  case Nil
  then show ?case by simp
next
  case (Cons k keys)
  obtain m b where st: "st = (m, b)" by (cases st)
  show ?case
  proof (cases "redis_get db k = Some Empty")
    case True
    then show ?thesis unfolding st using Cons.IH by simp
  next
    case False
    then have "redis_get (drop_empty db) k = redis_get db k" by (rule drop_empty_get)
    with False show ?thesis unfolding st using Cons.IH
      by (simp add: Let_def split: option.splits blob.splits sum.splits prod.splits)
  qed
qed

lemma scan_best_in_keys:
  "scan db q keys (m, b) = (Inr (m', Some key), divs) \<Longrightarrow> b = Some key \<or> key \<in> set keys"
proof (induction keys arbitrary: m b divs)
  case Nil
  then show ?case by simp
next
  case (Cons k keys)
  then show ?case
    by (fastforce simp: Let_def split: option.splits blob.splits sum.splits prod.splits if_splits)
qed

lemma cache_get_drop_empty:
  assumes "distinct (map fst db)"
  shows "cache_get threshold get_embedding (drop_empty db) query =
         cache_get threshold get_embedding db query"
proof (cases "get_embedding query")
  case (Inl e)
  then show ?thesis by (simp add: cache_get_def)
next
  case (Inr q)
  define keys where "keys = redis_keys db cache_prefix"
  define keys' where "keys' = redis_keys (drop_empty db) cache_prefix"
  have keys': "keys' = filter (\<lambda>key. redis_get db key \<noteq> Some Empty) keys"
    unfolding keys_def keys'_def using assms by (rule drop_empty_keys)
  have scan_eq: "scan db q keys (0, None) = scan (drop_empty db) q keys' (0, None)"
    unfolding keys' by (rule scan_drop_empty)
  have get_same: "redis_get (drop_empty db) key = redis_get db key"
    if "scan (drop_empty db) q keys' (0, None) = (Inr (m', Some key), divs)" for m' key divs
  proof -
    from scan_best_in_keys[OF that] have "key \<in> set keys'" by simp
    then have "redis_get db key \<noteq> Some Empty" by (simp add: keys')
    then show ?thesis by (rule drop_empty_get)
  qed
  show ?thesis
  proof (cases "keys' = []")
    case True
    with scan_eq have "scan db q keys (0, None) = (Inr (0, None), [])" by simp
    with True Inr show ?thesis
      by (simp add: cache_get_def Let_def keys_def[symmetric] keys'_def[symmetric])
  next
    case False
    with keys' have ne: "keys \<noteq> []" by auto
    obtain outcome divs where run: "scan (drop_empty db) q keys' (0, None) = (outcome, divs)"
      by (cases "scan (drop_empty db) q keys' (0, None)")
    show ?thesis
    proof (cases outcome)
      case (Inl e)
      with run scan_eq False ne Inr show ?thesis
        by (simp add: cache_get_def Let_def keys_def[symmetric] keys'_def[symmetric])
    next
      case (Inr st)
      obtain m' b' where st: "st = (m', b')" by (cases st)
      show ?thesis
      proof (cases b')
        case None
        with run scan_eq False ne Inr st \<open>get_embedding query = Inr q\<close> show ?thesis
          by (simp add: cache_get_def Let_def keys_def[symmetric] keys'_def[symmetric])
      next
        case (Some key)
        with run Inr st have "scan (drop_empty db) q keys' (0, None) = (Inr (m', Some key), divs)"
          by simp
        from get_same[OF this] have "redis_get (drop_empty db) key = redis_get db key" .
        with Some run scan_eq False ne Inr st \<open>get_embedding query = Inr q\<close> show ?thesis
          by (simp add: cache_get_def Let_def keys_def[symmetric] keys'_def[symmetric])
      qed
    qed
  qed
qed

text \<open>
  Claim C6, as the code has it. The scan skips an entry only when its stored value reads
  back empty (\<open>if not cached_data: continue\<close>): with such entries in the store, \<open>get\<close>
  gives what it gives without them. An entry that is not decodable, or lacks
  \<open>"embedding"\<close>, is not skipped: \<open>json.loads\<close> or the field lookup raises, nothing
  catches it, and \<open>get\<close> ends with an exception instead of a hit or a miss.
\<close>

theorem cache_get_unreadable_entries:
  "(distinct (map fst db) \<longrightarrow>
      cache_get threshold get_embedding (drop_empty db) query =
      cache_get threshold get_embedding db query) \<and>
   (get_embedding query = Inr q \<and> key \<in> set (redis_keys db cache_prefix) \<and> malformed db key \<longrightarrow>
      (\<exists>e. fst (cache_get threshold get_embedding db query) = Inl e))"
  using cache_get_drop_empty cache_get_malformed by blast

lemma ex_eval_hit:
  "fst (cache_get (19 / 20) ex_embed ex_cache_db ''what is x'') = Inr (Some ex_cached)"
  unfolding cache_get_def ex_keys
  by (simp add: ex_embed_def redis_get_def ex_cache_db_def
        np_dot_def np_divide_def divisor_def np_norm_def sqrt_400 Let_def)

text \<open>The readable entries alone give a hit; with one undecodable entry beside them, or
  one entry without \<open>"embedding"\<close>, \<open>get\<close> raises.\<close>

theorem cache_get_malformed_counterexample:
  "fst (cache_get (19 / 20) ex_embed ex_cache_db ''what is x'') = Inr (Some ex_cached) \<and>
   fst (cache_get (19 / 20) ex_embed ex_cache_db_garbage ''what is x'') = Inl JSONDecodeError \<and>
   fst (cache_get (19 / 20) ex_embed ex_cache_db_nofield ''what is x'') = Inl KeyError"
proof -
  have k1: "redis_keys ex_cache_db_garbage cache_prefix =
      [''semantic_cache:a'', ''semantic_cache:b'', ''semantic_cache:z'']"
    by (simp add: redis_keys_def ex_cache_db_garbage_def ex_cache_db_def cache_prefix_def)
  have k2: "redis_keys ex_cache_db_nofield cache_prefix =
      [''semantic_cache:0'', ''semantic_cache:a'', ''semantic_cache:b'']"
    by (simp add: redis_keys_def ex_cache_db_nofield_def ex_cache_db_def cache_prefix_def)
  have "fst (cache_get (19 / 20) ex_embed ex_cache_db_garbage ''what is x'') = Inl JSONDecodeError"
    unfolding cache_get_def k1
    by (simp add: ex_embed_def redis_get_def ex_cache_db_garbage_def ex_cache_db_def
        np_dot_def np_divide_def divisor_def np_norm_def sqrt_400 Let_def)
  moreover have "fst (cache_get (19 / 20) ex_embed ex_cache_db_nofield ''what is x'') = Inl KeyError"
    unfolding cache_get_def k2
    by (simp add: ex_embed_def redis_get_def ex_cache_db_nofield_def Let_def)
  ultimately show ?thesis using ex_eval_hit by simp
qed

text \<open>An empty entry is skipped; an undecodable one raises.\<close>

theorem cache_get_unreadable_entries_witness:
  "cache_get (19 / 20) ex_embed (drop_empty ex_cache_db_empty) ''what is x'' =
     cache_get (19 / 20) ex_embed ex_cache_db_empty ''what is x'' \<and>
   drop_empty ex_cache_db_empty = ex_cache_db \<and>
   (\<exists>e. fst (cache_get (19 / 20) ex_embed ex_cache_db_garbage ''what is x'') = Inl e)"
proof -
  have d: "distinct (map fst ex_cache_db_empty)"
    by (simp add: ex_cache_db_empty_def ex_cache_db_def)
  have m: "ex_embed ''what is x'' = Inr [1, 0, 0, 0, 0] \<and>
      ''semantic_cache:z'' \<in> set (redis_keys ex_cache_db_garbage cache_prefix) \<and>
      malformed ex_cache_db_garbage ''semantic_cache:z''"
    by (simp add: ex_embed_def redis_keys_def ex_cache_db_garbage_def ex_cache_db_def cache_prefix_def
          malformed_def redis_get_def)
  have e: "drop_empty ex_cache_db_empty = ex_cache_db"
    by (simp add: drop_empty_def ex_cache_db_empty_def ex_cache_db_def)
  from d cache_get_unreadable_entries [of ex_cache_db_empty "19 / 20" ex_embed "''what is x''"]
  have 1: "cache_get (19 / 20) ex_embed (drop_empty ex_cache_db_empty) ''what is x'' =
     cache_get (19 / 20) ex_embed ex_cache_db_empty ''what is x''" by blast
  from m cache_get_unreadable_entries [of ex_cache_db_garbage "19 / 20" ex_embed "''what is x''"
      "[1, 0, 0, 0, 0]" "''semantic_cache:z''"]
  have 2: "\<exists>e. fst (cache_get (19 / 20) ex_embed ex_cache_db_garbage ''what is x'') = Inl e" by blast
  from 1 2 e show ?thesis by blast
qed

text \<open>The divisor is zero only when one of the two vectors is all zeros, and then the
  dividend is zero as well.\<close>

lemma np_norm_zero_iff: "np_norm a = 0 \<longleftrightarrow> (\<forall>x\<in>set a. x = 0)"
proof -
  have nonneg: "0 \<le> (\<Sum>x\<leftarrow>a. x * x)" for a :: "real list"
    by (induction a) auto
  have "(\<Sum>x\<leftarrow>a. x * x) = 0 \<longleftrightarrow> (\<forall>x\<in>set a. x = 0)"
  proof (induction a)
    case Nil
    then show ?case by simp
  next
    case (Cons y a)
    have "y * y + (\<Sum>x\<leftarrow>a. x * x) = 0 \<longleftrightarrow> y * y = 0 \<and> (\<Sum>x\<leftarrow>a. x * x) = 0"
      using nonneg[of a] by (intro add_nonneg_eq_0_iff) auto
    with Cons show ?case by simp
  qed
  then show ?thesis by (simp add: np_norm_def)
qed

lemma sum_list_all_zero:
  fixes f :: "'a \<Rightarrow> real"
  shows "\<forall>x\<in>set xs. f x = 0 \<Longrightarrow> (\<Sum>x\<leftarrow>xs. f x) = 0"
  by (induction xs) auto

lemma zero_divisor_zero_dot:
  assumes "divisor a b = 0" "length a = length b"
  shows "np_dot a b = Inr 0"
proof -
  from assms(1) have "(\<forall>x\<in>set a. x = 0) \<or> (\<forall>y\<in>set b. y = 0)"
    by (simp add: divisor_def np_norm_zero_iff)
  then have "\<forall>(x, y)\<in>set (zip a b). x * y = 0"
    by (auto dest: set_zip_leftD set_zip_rightD)
  then have "(\<Sum>(x, y)\<leftarrow>zip a b. x * y) = 0"
    by (intro sum_list_all_zero) auto
  with assms(2) show ?thesis by (simp add: np_dot_def)
qed

lemma scan_divisors_nonzero:
  assumes "np_norm q \<noteq> 0"
    and "\<forall>key\<in>set keys. \<forall>data e. redis_get db key = Some (Json data) \<longrightarrow>
           embedding data = Some e \<longrightarrow> np_norm e \<noteq> 0"
  shows "0 \<notin> set (snd (scan db q keys st))"
  using assms(2)
proof (induction keys arbitrary: st)
  case Nil
  then show ?case by simp
next
  case (Cons k keys)
  obtain m b where st: "st = (m, b)" by (cases st)
  from Cons.prems have rest0: "\<And>st. 0 \<notin> set (snd (scan db q keys st))"
    by (intro Cons.IH) auto
  then have rest: "\<And>st outcome divs. scan db q keys st = (outcome, divs) \<Longrightarrow> 0 \<notin> set divs"
    by (metis snd_conv)
  from Cons.prems have here: "\<And>data e. redis_get db k = Some (Json data) \<Longrightarrow>
           embedding data = Some e \<Longrightarrow> divisor q e \<noteq> 0"
    using assms(1) by (simp add: divisor_def)
  show ?case unfolding st using here rest0
    by (auto simp: Let_def split: option.splits blob.splits sum.splits prod.splits dest: rest)
qed

text \<open>
  Claim C9, as the code has it. The scan divides by \<open>norm(query) * norm(cached)\<close> without
  testing it. When the query embedding and every stored embedding have non-zero norm, no
  division of the scan has a zero divisor; nothing else keeps a zero divisor away.
\<close>

theorem cache_get_no_zero_division:
  assumes "get_embedding query = Inr q"
    and "np_norm q \<noteq> 0"
    and "\<forall>key\<in>set (redis_keys db cache_prefix). \<forall>data e.
           redis_get db key = Some (Json data) \<longrightarrow> embedding data = Some e \<longrightarrow> np_norm e \<noteq> 0"
  shows "0 \<notin> set (snd (cache_get threshold get_embedding db query))"
proof -
  from scan_divisors_nonzero[OF assms(2,3)]
  have "0 \<notin> set (snd (scan db q (redis_keys db cache_prefix) (0, None)))" .
  then show ?thesis using assms(1)
    by (auto simp: cache_get_def Let_def split: option.splits blob.splits sum.splits prod.splits)
qed

text \<open>A stored all-zero embedding: the scan divides by zero, and \<open>get\<close> reports a miss.\<close>

theorem cache_get_zero_division_counterexample:
  "cache_get (19 / 20) ex_embed ex_cache_db_zero ''what is x'' = (Inr None, [0])"
  by (simp add: cache_get_def ex_embed_def redis_keys_def cache_prefix_def redis_get_def
        ex_cache_db_zero_def np_dot_def np_divide_def divisor_def np_norm_def Let_def)

theorem cache_get_no_zero_division_witness:
  "0 \<notin> set (snd (cache_get (19 / 20) ex_embed ex_cache_db ''what is x''))"
proof -
  have e: "ex_embed ''what is x'' = Inr [1, 0, 0, 0, 0]" by (simp add: ex_embed_def)
  have n: "np_norm [1, 0, 0, 0, 0] \<noteq> 0" by (simp add: np_norm_def)
  have a: "\<forall>key\<in>set (redis_keys ex_cache_db cache_prefix). \<forall>data e.
           redis_get ex_cache_db key = Some (Json data) \<longrightarrow> embedding data = Some e \<longrightarrow> np_norm e \<noteq> 0"
    unfolding ex_keys
    by (auto simp: redis_get_def ex_cache_db_def np_norm_def sqrt_400)
  from cache_get_no_zero_division [of ex_embed "''what is x''" "[1, 0, 0, 0, 0]" ex_cache_db "19 / 20", OF e n a]
  show ?thesis .
qed

section \<open>Properties of the lexical index\<close>

lemma insort_key_lex:
  fixes g :: "nat \<Rightarrow> real"
  assumes "sorted_wrt (\<lambda>i j. g i < g j \<or> (g i = g j \<and> i < j)) ys" "\<forall>y\<in>set ys. x < y"
  shows "sorted_wrt (\<lambda>i j. g i < g j \<or> (g i = g j \<and> i < j)) (insort_key g x ys)"
  using assms
proof (induction ys)
  case Nil
  then show ?case by simp
next
  case (Cons y ys)
  show ?case
  proof (cases "g x \<le> g y")
    case True
    have "\<forall>z\<in>set (y # ys). g x < g z \<or> (g x = g z \<and> x < z)"
    proof
      fix z assume z: "z \<in> set (y # ys)"
      with Cons.prems(1) have "g y \<le> g z" by fastforce
      with True have "g x \<le> g z" by simp
      moreover from z Cons.prems(2) have "x < z" by auto
      ultimately show "g x < g z \<or> (g x = g z \<and> x < z)" by auto
    qed
    with True Cons.prems(1) show ?thesis by simp
  next
    case False
    from Cons.prems have "sorted_wrt (\<lambda>i j. g i < g j \<or> (g i = g j \<and> i < j)) (insort_key g x ys)"
      by (intro Cons.IH) auto
    moreover have "\<forall>z\<in>set (insort_key g x ys). g y < g z \<or> (g y = g z \<and> y < z)"
      using False Cons.prems(1) by (auto simp: set_insort_key)
    ultimately show ?thesis using False by simp
  qed
qed

lemma sort_key_lex:
  fixes g :: "nat \<Rightarrow> real"
  shows "sorted_wrt (<) xs \<Longrightarrow>
         sorted_wrt (\<lambda>i j. g i < g j \<or> (g i = g j \<and> i < j)) (sort_key g xs)"
proof (induction xs)
  case Nil
  then show ?case by simp
next
  case (Cons x xs)
  then have "sorted_wrt (\<lambda>i j. g i < g j \<or> (g i = g j \<and> i < j)) (sort_key g xs)"
    and "\<forall>y\<in>set (sort_key g xs). x < y" by auto
  then show ?case by (simp add: insort_key_lex)
qed

lemma sort_desc_lex:
  "sorted_wrt (\<lambda>i j. f j < f i \<or> (f i = f j \<and> i < j)) (sort_desc f [0..<n])"
proof -
  have "sorted_wrt (<) [0..<n]" by (simp add: sorted_wrt_upt)
  from sort_key_lex[OF this, of "\<lambda>i. - f i"] show ?thesis
    by (simp add: sort_desc_def)
qed

lemma filter_take_sorted:
  fixes f :: "'a \<Rightarrow> real"
  shows "sorted_wrt (\<lambda>i j. f j \<le> f i) xs \<Longrightarrow>
         filter (\<lambda>i. 0 < f i) (take k xs) = take k (filter (\<lambda>i. 0 < f i) xs)"
proof (induction xs arbitrary: k)
  case Nil
  then show ?case by simp
next
  case (Cons x xs)
  show ?case
  proof (cases k)
    case 0
    then show ?thesis by simp
  next
    case (Suc k')
    show ?thesis
    proof (cases "0 < f x")
      case True
      with Cons Suc show ?thesis by simp
    next
      case False
      with Cons.prems have "\<forall>y\<in>set xs. \<not> 0 < f y" by force
      then have "filter (\<lambda>i. 0 < f i) xs = []" "filter (\<lambda>i. 0 < f i) (take k' xs) = []"
        by (auto simp: filter_empty_conv dest: in_set_takeD)
      with False Suc show ?thesis by simp
    qed
  qed
qed

lemma collect_positive:
  "\<forall>i\<in>set idxs. 0 < scores ! i \<longrightarrow> mapping i \<noteq> None \<Longrightarrow>
   collect mapping scores idxs =
     Inr (map (\<lambda>i. lexical_result (the (mapping i)) (scores ! i))
            (filter (\<lambda>i. 0 < scores ! i) idxs))"
  by (induction idxs) auto

lemma count_positive:
  "length (filter (\<lambda>i. 0 < scores ! i) [0..<length scores]) = length (filter (\<lambda>s. 0 < s) scores)"
proof -
  have "filter (\<lambda>s. 0 < s) (map (\<lambda>i. scores ! i) [0..<length scores]) =
        map (\<lambda>i. scores ! i) (filter (\<lambda>i. 0 < scores ! i) [0..<length scores])"
    by (simp add: filter_map comp_def)
  then have "length (filter (\<lambda>s. 0 < s) (map (\<lambda>i. scores ! i) [0..<length scores])) =
        length (filter (\<lambda>i. 0 < scores ! i) [0..<length scores])"
    by simp
  then show ?thesis by (simp add: map_nth)
qed

text \<open>
  Claim C5, as the code has it. For a store with an index in memory, \<open>top_k \<ge> 0\<close> and a
  document mapping that covers the scored documents, \<open>search\<close> returns the \<open>top_k\<close> documents
  with the highest strictly positive scores: documents with a score of zero or less are
  left out even when fewer than \<open>top_k\<close> remain, the order is by score descending with ties
  in ascending document index, no document left out has a higher score than one returned,
  and every returned result carries its document's content, metadata and score and the
  source tag \<open>"bm25"\<close>.
\<close>

theorem search_top_k:
  assumes "bm25_index st = Some index"
    and "scores = get_scores lib index (word_tokenize lib (str_lower lib query))"
    and "0 \<le> top_k"
    and "\<forall>i<length scores. 0 < scores ! i \<longrightarrow> doc_mapping st i \<noteq> None"
  shows "\<exists>top rs. search lib st query top_k = (st, Inr rs) \<and>
           top = take (nat top_k)
                   (filter (\<lambda>i. 0 < scores ! i) (sort_desc (\<lambda>i. scores ! i) [0..<length scores])) \<and>
           length top = min (nat top_k) (length (filter (\<lambda>s. 0 < s) scores)) \<and>
           distinct top \<and>
           (\<forall>i\<in>set top. i < length scores \<and> 0 < scores ! i) \<and>
           sorted_wrt (\<lambda>i j. scores ! j < scores ! i \<or> (scores ! i = scores ! j \<and> i < j)) top \<and>
           (\<forall>i\<in>set top. \<forall>j<length scores. j \<notin> set top \<longrightarrow> scores ! j \<le> scores ! i) \<and>
           length rs = length top \<and>
           (\<forall>n<length top. \<exists>info. doc_mapping st (top ! n) = Some info \<and>
                                   rs ! n = lexical_result info (scores ! (top ! n))) \<and>
           (\<forall>r\<in>set rs. source r = ''bm25'' \<and> 0 < score r)"
proof -
  define f where "f = (\<lambda>i. scores ! i)"
  define srt where "srt = sort_desc f [0..<length scores]"
  define pos where "pos = filter (\<lambda>i. 0 < f i) srt"
  define top where "top = take (nat top_k) pos"
  define rs where "rs = map (\<lambda>i. lexical_result (the (doc_mapping st i)) (f i)) top"
  have srt_set: "set srt = {0..<length scores}" by (simp add: srt_def)
  have srt_sorted: "sorted_wrt (\<lambda>i j. f j \<le> f i) srt" unfolding srt_def by (rule sort_desc_sorted)
  have srt_lex: "sorted_wrt (\<lambda>i j. f j < f i \<or> (f i = f j \<and> i < j)) srt"
    unfolding srt_def by (rule sort_desc_lex)
  have cut: "filter (\<lambda>i. 0 < f i) (take (nat top_k) srt) = top"
    unfolding top_def pos_def using srt_sorted by (rule filter_take_sorted)
  have idx: "top_indices scores top_k = take (nat top_k) srt"
    using assms(3) by (simp add: top_indices_def py_take_nonneg srt_def f_def)
  have top_sub: "set top \<subseteq> set pos" unfolding top_def by (rule set_take_subset)
  have pos_in: "\<forall>i\<in>set pos. i < length scores \<and> 0 < f i"
    using srt_set by (auto simp: pos_def)
  with top_sub have top_in: "\<forall>i\<in>set top. i < length scores \<and> 0 < f i" by blast
  have covered: "\<forall>i\<in>set (take (nat top_k) srt). 0 < scores ! i \<longrightarrow> doc_mapping st i \<noteq> None"
  proof (intro ballI impI)
    fix i assume "i \<in> set (take (nat top_k) srt)" "0 < scores ! i"
    then have "i \<in> set srt" by (auto dest: in_set_takeD)
    with srt_set have "i < length scores" by simp
    with assms(4) \<open>0 < scores ! i\<close> show "doc_mapping st i \<noteq> None" by blast
  qed
  have run: "search lib st query top_k = (st, Inr rs)"
    using assms(1) assms(2)[symmetric] collect_positive[OF covered] cut
    by (simp add: search_def Let_def idx rs_def f_def)
  have "length pos = length (filter (\<lambda>i. 0 < scores ! i) [0..<length scores])"
    by (simp add: pos_def srt_def sort_desc_def filter_sort f_def)
  then have "length pos = length (filter (\<lambda>s. 0 < s) scores)" by (simp add: count_positive)
  then have len: "length top = min (nat top_k) (length (filter (\<lambda>s. 0 < s) scores))"
    by (simp add: top_def min.commute)
  have pos_dist: "distinct pos" by (simp add: pos_def srt_def)
  then have dist: "distinct top" by (simp add: top_def)
  have pos_lex: "sorted_wrt (\<lambda>i j. f j < f i \<or> (f i = f j \<and> i < j)) pos"
    unfolding pos_def using srt_lex by (rule sorted_wrt_filter)
  then have lex: "sorted_wrt (\<lambda>i j. f j < f i \<or> (f i = f j \<and> i < j)) top"
    unfolding top_def by (rule sorted_wrt_take)
  have pos_sorted: "sorted_wrt (\<lambda>i j. f j \<le> f i) pos"
    unfolding pos_def using srt_sorted by (rule sorted_wrt_filter)
  have best: "\<forall>i\<in>set top. \<forall>j<length scores. j \<notin> set top \<longrightarrow> f j \<le> f i"
  proof (intro ballI allI impI)
    fix i j assume i: "i \<in> set top" and j: "j < length scores" "j \<notin> set top"
    show "f j \<le> f i"
    proof (cases "0 < f j")
      case True
      with j(1) srt_set have "j \<in> set pos" by (simp add: pos_def)
      with j(2) have "j \<in> set pos - set (take (nat top_k) pos)" by (simp add: top_def)
      with pos_sorted pos_dist i show ?thesis
        unfolding top_def by (intro take_sorted_top[where f = f and xs = pos])
    next
      case False
      with top_in i show ?thesis by force
    qed
  qed
  have nth: "\<forall>n<length top. \<exists>info. doc_mapping st (top ! n) = Some info \<and>
                                   rs ! n = lexical_result info (f (top ! n))"
  proof (intro allI impI)
    fix n assume n: "n < length top"
    then have "top ! n \<in> set top" by simp
    with top_in have "top ! n < length scores" "0 < scores ! (top ! n)" by (auto simp: f_def)
    with assms(4) obtain info where "doc_mapping st (top ! n) = Some info" by blast
    with n show "\<exists>info. doc_mapping st (top ! n) = Some info \<and>
                        rs ! n = lexical_result info (f (top ! n))"
      by (simp add: rs_def)
  qed
  have tags: "\<forall>r\<in>set rs. source r = ''bm25'' \<and> 0 < score r"
    using top_in by (auto simp: rs_def lexical_result_def)
  have "length rs = length top" by (simp add: rs_def)
  with run len dist top_in lex best nth tags show ?thesis
    unfolding f_def top_def pos_def srt_def by blast
qed

lemma ex_scores_refund:
  "get_scores ex_library ex_index (word_tokenize ex_library (str_lower ex_library ''refund'')) =
     [1.5, 0, 1.5, 1.5]"
  by (simp add: ex_library_def ex_index_def)

text \<open>Three of four documents match, \<open>top_k = 2\<close>: two results, tagged \<open>"bm25"\<close>.\<close>

theorem search_top_k_witness:
  "\<exists>rs. search ex_library ex_lexical_store ''refund'' 2 = (ex_lexical_store, Inr rs) \<and>
        length rs = 2 \<and> (\<forall>r\<in>set rs. source r = ''bm25'' \<and> 0 < score r)"
proof -
  have 1: "bm25_index ex_lexical_store = Some ex_index" by (simp add: ex_lexical_store_def)
  have 2: "[1.5, 0, 1.5, 1.5] =
      get_scores ex_library ex_index (word_tokenize ex_library (str_lower ex_library ''refund''))"
    by (simp add: ex_scores_refund)
  have 3: "(0::int) \<le> 2" by simp
  have 4: "\<forall>i<length [1.5, 0, 1.5, 1.5::real]. 0 < [1.5, 0, 1.5, 1.5::real] ! i \<longrightarrow>
             doc_mapping ex_lexical_store i \<noteq> None"
    by (simp add: ex_lexical_store_def ex_mapping_def)
  from search_top_k [OF 1 2 3 4] show ?thesis
  proof (elim exE conjE)
    fix top :: "nat list" and rs
    assume "search ex_library ex_lexical_store ''refund'' 2 = (ex_lexical_store, Inr rs)"
      and "length top = min (nat 2) (length (filter (\<lambda>s. 0 < s) [1.5, 0, 1.5, 1.5::real]))"
      and "length rs = length top"
      and "\<forall>r\<in>set rs. source r = ''bm25'' \<and> 0 < score r"
    then show ?thesis by auto
  qed
qed

text \<open>The tag of a returned result is \<open>"bm25"\<close>, not \<open>"lexical"\<close>.\<close>

theorem search_source_tag_counterexample:
  "snd (search ex_library ex_lexical_store ''refund'' 2) =
     Inr [lexical_result (ex_infos ! 0) 1.5, lexical_result (ex_infos ! 2) 1.5] \<and>
   source (lexical_result (ex_infos ! 0) 1.5) = ''bm25'' \<and>
   source (lexical_result (ex_infos ! 0) 1.5) \<noteq> ''lexical''"
  by (simp add: search_def ex_lexical_store_def ex_scores_refund top_indices_def py_take_def
        sort_desc_def ex_mapping_def ex_infos_def lexical_result_def Let_def)

text \<open>
  Claim C8. With the engine of the specification, building the index from an empty document
  list succeeds, and a search against the store it leaves returns the empty list, for every
  query and every \<open>top_k\<close>, without an exception and without changing the store.
\<close>

theorem build_empty_then_search:
  "\<exists>st'. build_index (spec_library floor_value lower_fn tokenizer) st [] = Inr st' \<and>
         search (spec_library floor_value lower_fn tokenizer) st' query top_k = (st', Inr [])"
  by (simp add: build_index_def spec_library_def spec_build_def save_to_redis_def search_def
        spec_get_scores_def top_indices_def py_take_def sort_desc_def Let_def)

text \<open>The lazy load: when the serialized index is absent or unreadable, lacks its corpus, or
  the constructor rejects the corpus, no index is set and \<open>search\<close> returns the empty list.\<close>

lemma search_index_not_loaded:
  assumes "bm25_index st = None"
    and "case bm25_index_key (redis_snapshot st) of
           None \<Rightarrow> True
         | Some Unreadable \<Rightarrow> True
         | Some (Pickled d) \<Rightarrow>
             (case dict_corpus d of
                None \<Rightarrow> True
              | Some c \<Rightarrow> (case BM25Okapi lib c of Inl e \<Rightarrow> True | Inr i \<Rightarrow> False))"
  shows "snd (search lib st query top_k) = Inr [] \<and>
         bm25_index (fst (search lib st query top_k)) = None"
proof -
  have docs: "bm25_index (load_documents st) = None"
    using assms(1) by (simp add: load_documents_def split: option.splits pickled.splits)
  have "bm25_index (load_from_redis lib st) = None"
  proof (cases "bm25_index_key (redis_snapshot st)")
    case None
    with docs show ?thesis by (simp add: load_from_redis_def)
  next
    case (Some p)
    show ?thesis
    proof (cases p)
      case Unreadable
      with Some assms(1) show ?thesis by (simp add: load_from_redis_def)
    next
      case (Pickled d)
      show ?thesis
      proof (cases "dict_corpus d")
        case None
        with Some Pickled assms(1) show ?thesis by (simp add: load_from_redis_def)
      next
        case (Some c)
        with assms(2) \<open>bm25_index_key (redis_snapshot st) = Some p\<close> Pickled
        obtain e where "BM25Okapi lib c = Inl e" by (cases "BM25Okapi lib c") auto
        with Some \<open>bm25_index_key (redis_snapshot st) = Some p\<close> Pickled assms(1)
        show ?thesis by (simp add: load_from_redis_def)
      qed
    qed
  qed
  with assms(1) show ?thesis by (simp add: search_def Let_def)
qed

lemma ex_partial_loaded:
  "load_from_redis ex_library ex_store_partial = ex_store_partial\<lparr>bm25_index := Some ex_index\<rparr>"
  by (simp add: load_from_redis_def load_documents_def ex_store_partial_def
        ex_snapshot_index_def ex_library_def Let_def)

text \<open>
  Claim C7 at a partial snapshot. The serialized index decodes, the document mapping does
  not. \<open>_load_from_redis\<close> has assigned \<open>self.bm25_index\<close> before the mapping fails to load
  and its \<open>except\<close> leaves that assignment in place, so \<open>search\<close> goes on with an index and
  an empty mapping, and the first matching document raises \<open>KeyError\<close>.
\<close>

theorem search_partial_snapshot_raises:
  "snd (search ex_library ex_store_partial ''refund'' 20) = Inl KeyError \<and>
   bm25_index (fst (search ex_library ex_store_partial ''refund'' 20)) = Some ex_index"
proof -
  have "bm25_index ex_store_partial = None" "doc_mapping ex_store_partial = Map.empty"
    by (simp_all add: ex_store_partial_def)
  then show ?thesis
    by (simp add: search_def ex_partial_loaded ex_scores_refund top_indices_def py_take_def
          sort_desc_def Let_def)
qed

section \<open>Properties of rank fusion\<close>

lemma contribution_absent:
  "doc_id \<notin> (\<lambda>r. get_doc_id (h r)) ` set rs \<Longrightarrow> contribution h w k rank rs doc_id = 0"
  by (induction rs arbitrary: rank) auto

lemma fuse_vector_inv:
  assumes "0 < k + rank"
  shows "\<exists>dm' ds'. fuse_vector h alpha k rank vs (dm, ds) = Inr (dm', ds') \<and>
           (distinct (map fst ds) \<longrightarrow> distinct (map fst ds')) \<and>
           fst ` set ds' = fst ` set ds \<union> (\<lambda>r. get_doc_id (h r)) ` set vs \<and>
           dom dm' = dom dm \<union> (\<lambda>r. get_doc_id (h r)) ` set vs \<and>
           (\<forall>d r. dm' d = Some r \<longrightarrow> dm d = Some r \<or> (r \<in> set vs \<and> get_doc_id (h r) = d)) \<and>
           (distinct (map (\<lambda>r. get_doc_id (h r)) vs) \<longrightarrow>
              (\<forall>d. map_of ds' d =
                 (if d \<in> (\<lambda>r. get_doc_id (h r)) ` set vs
                  then Some (contribution h alpha k rank vs d) else map_of ds d)))"
  using assms
proof (induction vs arbitrary: rank dm ds)
  case Nil
  then show ?case by simp
next
  case (Cons v vs)
  define d0 where "d0 = get_doc_id (h v)"
  define c where "c = alpha / of_int (k + rank)"
  define dm1 where "dm1 = dm(d0 \<mapsto> v)"
  define ds1 where "ds1 = AList.update d0 c ds"
  from Cons.prems have pos: "0 < k + (rank + 1)" and nz: "k + rank \<noteq> 0" by simp_all
  from Cons.IH[OF pos, of dm1 ds1] show ?case
  proof (elim exE conjE)
  fix dm' ds'
  assume run: "fuse_vector h alpha k (rank + 1) vs (dm1, ds1) = Inr (dm', ds')"
    and dist: "distinct (map fst ds1) \<longrightarrow> distinct (map fst ds')"
    and keys: "fst ` set ds' = fst ` set ds1 \<union> (\<lambda>r. get_doc_id (h r)) ` set vs"
    and dom: "dom dm' = dom dm1 \<union> (\<lambda>r. get_doc_id (h r)) ` set vs"
    and refs: "\<forall>d r. dm' d = Some r \<longrightarrow> dm1 d = Some r \<or> (r \<in> set vs \<and> get_doc_id (h r) = d)"
    and sc: "distinct (map (\<lambda>r. get_doc_id (h r)) vs) \<longrightarrow>
              (\<forall>d. map_of ds' d =
                 (if d \<in> (\<lambda>r. get_doc_id (h r)) ` set vs
                  then Some (contribution h alpha k (rank + 1) vs d) else map_of ds1 d))"
  have step: "fuse_vector h alpha k rank (v # vs) (dm, ds) = Inr (dm', ds')"
    using run nz by (simp add: py_div_def Let_def d0_def c_def dm1_def ds1_def)
  have 1: "distinct (map fst ds) \<longrightarrow> distinct (map fst ds')"
    using dist by (simp add: ds1_def distinct_update)
  have 2: "fst ` set ds' = fst ` set ds \<union> (\<lambda>r. get_doc_id (h r)) ` set (v # vs)"
    using keys by (auto simp: ds1_def dom_update d0_def)
  have 3: "dom dm' = dom dm \<union> (\<lambda>r. get_doc_id (h r)) ` set (v # vs)"
    using dom by (auto simp: dm1_def d0_def)
  have 4: "\<forall>d r. dm' d = Some r \<longrightarrow> dm d = Some r \<or> (r \<in> set (v # vs) \<and> get_doc_id (h r) = d)"
    using refs by (auto simp: dm1_def d0_def split: if_splits)
  have 5: "distinct (map (\<lambda>r. get_doc_id (h r)) (v # vs)) \<longrightarrow>
              (\<forall>d. map_of ds' d =
                 (if d \<in> (\<lambda>r. get_doc_id (h r)) ` set (v # vs)
                  then Some (contribution h alpha k rank (v # vs) d) else map_of ds d))"
  proof (intro impI allI)
    fix d assume dv: "distinct (map (\<lambda>r. get_doc_id (h r)) (v # vs))"
    then have notin: "d0 \<notin> (\<lambda>r. get_doc_id (h r)) ` set vs" and dvs: "distinct (map (\<lambda>r. get_doc_id (h r)) vs)"
      by (auto simp: d0_def)
    from sc dvs have eq: "map_of ds' d =
                 (if d \<in> (\<lambda>r. get_doc_id (h r)) ` set vs
                  then Some (contribution h alpha k (rank + 1) vs d) else map_of ds1 d)" by blast
    show "map_of ds' d =
                 (if d \<in> (\<lambda>r. get_doc_id (h r)) ` set (v # vs)
                  then Some (contribution h alpha k rank (v # vs) d) else map_of ds d)"
    proof (cases "d = d0")
      case True
      with notin eq have "map_of ds' d = Some c" by (simp add: ds1_def update_conv')
      moreover from True notin have "contribution h alpha k (rank + 1) vs d = 0"
        by (intro contribution_absent) simp
      ultimately show ?thesis using True by (simp add: d0_def c_def)
    next
      case False
      then have "map_of ds1 d = map_of ds d" by (simp add: ds1_def update_conv')
      with eq False show ?thesis by (auto simp: d0_def)
    qed
  qed
  show ?case by (intro exI[of _ dm'] exI[of _ ds'] conjI) (fact step 1 2 3 4 5)+
  qed
qed

lemma fuse_bm25_inv:
  assumes "0 < k + rank"
  shows "\<exists>dm' ds'. fuse_bm25 h alpha k rank bs (dm, ds) = Inr (dm', ds') \<and>
           (distinct (map fst ds) \<longrightarrow> distinct (map fst ds')) \<and>
           fst ` set ds' = fst ` set ds \<union> (\<lambda>r. get_doc_id (h r)) ` set bs \<and>
           dom dm' = dom dm \<union> (\<lambda>r. get_doc_id (h r)) ` set bs \<and>
           (\<forall>d r. dm' d = Some r \<longrightarrow> dm d = Some r \<or> (r \<in> set bs \<and> get_doc_id (h r) = d)) \<and>
           (\<forall>d. map_of ds' d =
              (if d \<in> (\<lambda>r. get_doc_id (h r)) ` set bs
               then Some ((case map_of ds d of None \<Rightarrow> 0 | Some s \<Rightarrow> s) +
                          contribution h (1 - alpha) k rank bs d)
               else map_of ds d))"
  using assms
proof (induction bs arbitrary: rank dm ds)
  case Nil
  then show ?case by simp
next
  case (Cons b bs)
  define d0 where "d0 = get_doc_id (h b)"
  define c where "c = (1 - alpha) / of_int (k + rank)"
  define old where "old = (\<lambda>d. case map_of ds d of None \<Rightarrow> 0 | Some s \<Rightarrow> s)"
  define dm1 where "dm1 = (if dm d0 = None then dm(d0 \<mapsto> b) else dm)"
  define ds1 where "ds1 = AList.update d0 (old d0 + c) ds"
  from Cons.prems have pos: "0 < k + (rank + 1)" and nz: "k + rank \<noteq> 0" by simp_all
  from Cons.IH[OF pos, of dm1 ds1] show ?case
  proof (elim exE conjE)
    fix dm' ds'
    assume run: "fuse_bm25 h alpha k (rank + 1) bs (dm1, ds1) = Inr (dm', ds')"
      and dist: "distinct (map fst ds1) \<longrightarrow> distinct (map fst ds')"
      and keys: "fst ` set ds' = fst ` set ds1 \<union> (\<lambda>r. get_doc_id (h r)) ` set bs"
      and dom: "dom dm' = dom dm1 \<union> (\<lambda>r. get_doc_id (h r)) ` set bs"
      and refs: "\<forall>d r. dm' d = Some r \<longrightarrow> dm1 d = Some r \<or> (r \<in> set bs \<and> get_doc_id (h r) = d)"
      and sc: "\<forall>d. map_of ds' d =
              (if d \<in> (\<lambda>r. get_doc_id (h r)) ` set bs
               then Some ((case map_of ds1 d of None \<Rightarrow> 0 | Some s \<Rightarrow> s) +
                          contribution h (1 - alpha) k (rank + 1) bs d)
               else map_of ds1 d)"
    have step: "fuse_bm25 h alpha k rank (b # bs) (dm, ds) = Inr (dm', ds')"
      using run nz unfolding d0_def c_def dm1_def ds1_def old_def
      by (auto simp: py_div_def Let_def split: if_splits)
    have 1: "distinct (map fst ds) \<longrightarrow> distinct (map fst ds')"
      using dist by (simp add: ds1_def distinct_update)
    have 2: "fst ` set ds' = fst ` set ds \<union> (\<lambda>r. get_doc_id (h r)) ` set (b # bs)"
      using keys by (auto simp: ds1_def dom_update d0_def)
    have 3: "dom dm' = dom dm \<union> (\<lambda>r. get_doc_id (h r)) ` set (b # bs)"
      using dom by (auto simp: dm1_def d0_def split: if_splits)
    have 4: "\<forall>d r. dm' d = Some r \<longrightarrow> dm d = Some r \<or> (r \<in> set (b # bs) \<and> get_doc_id (h r) = d)"
      using refs by (auto simp: dm1_def d0_def split: if_splits)
    have 5: "\<forall>d. map_of ds' d =
              (if d \<in> (\<lambda>r. get_doc_id (h r)) ` set (b # bs)
               then Some ((case map_of ds d of None \<Rightarrow> 0 | Some s \<Rightarrow> s) +
                          contribution h (1 - alpha) k rank (b # bs) d)
               else map_of ds d)"
    proof
      fix d
      show "map_of ds' d =
              (if d \<in> (\<lambda>r. get_doc_id (h r)) ` set (b # bs)
               then Some ((case map_of ds d of None \<Rightarrow> 0 | Some s \<Rightarrow> s) +
                          contribution h (1 - alpha) k rank (b # bs) d)
               else map_of ds d)"
      proof (cases "d = d0")
        case True
        have m1: "map_of ds1 d0 = Some (old d0 + c)" by (simp add: ds1_def update_conv')
        show ?thesis
        proof (cases "d0 \<in> (\<lambda>r. get_doc_id (h r)) ` set bs")
          case True
          with sc m1 have "map_of ds' d0 =
              Some (old d0 + c + contribution h (1 - alpha) k (rank + 1) bs d0)" by simp
          with \<open>d = d0\<close> show ?thesis by (simp add: d0_def c_def old_def)
        next
          case False
          with sc m1 have "map_of ds' d0 = Some (old d0 + c)" by simp
          moreover from False have "contribution h (1 - alpha) k (rank + 1) bs d0 = 0"
            by (rule contribution_absent)
          ultimately show ?thesis using \<open>d = d0\<close> by (simp add: d0_def c_def old_def)
        qed
      next
        case False
        then have "map_of ds1 d = map_of ds d" by (simp add: ds1_def update_conv')
        with sc False show ?thesis by (auto simp: d0_def)
      qed
    qed
    show ?case by (intro exI[of _ dm'] exI[of _ ds'] conjI) (fact step 1 2 3 4 5)+
  qed
qed

lemma get_doc_id_update [simp]:
  "get_doc_id (x\<lparr>score := s, source := t\<rparr>) = get_doc_id x"
  by (simp add: get_doc_id_def)

lemma fuse_results_inv:
  assumes "distinct (map fst xs)"
    and "\<forall>d\<in>fst ` set xs. \<exists>r. doc_map d = Some r \<and> get_doc_id (h r) = d"
  shows "\<exists>out h'. fuse_results doc_map h xs = Inr (out, h') \<and>
           map Some out = map (\<lambda>x. doc_map (fst x)) xs \<and>
           (\<forall>r. r \<notin> set out \<longrightarrow> h' r = h r) \<and>
           (\<forall>x\<in>set xs. \<forall>r. doc_map (fst x) = Some r \<longrightarrow>
              h' r = (h r)\<lparr>score := snd x, source := ''hybrid''\<rparr>)"
  using assms
proof (induction xs arbitrary: h)
  case Nil
  then show ?case by simp
next
  case (Cons x xs)
  obtain d s where x: "x = (d, s)" by (cases x)
  from Cons.prems(2) x obtain r0 where r0: "doc_map d = Some r0" "get_doc_id (h r0) = d" by auto
  define h1 where "h1 = h(r0 := (h r0)\<lparr>score := s, source := ''hybrid''\<rparr>)"
  have key1: "get_doc_id (h1 r) = get_doc_id (h r)" for r by (simp add: h1_def)
  from Cons.prems have dist: "distinct (map fst xs)" and dnotin: "d \<notin> fst ` set xs"
    by (auto simp: x)
  have pre: "\<forall>d\<in>fst ` set xs. \<exists>r. doc_map d = Some r \<and> get_doc_id (h1 r) = d"
    using Cons.prems(2) by (auto simp: key1)
  from Cons.IH[OF dist pre] show ?case
  proof (elim exE conjE)
    fix out h'
    assume run: "fuse_results doc_map h1 xs = Inr (out, h')"
      and outs: "map Some out = map (\<lambda>x. doc_map (fst x)) xs"
      and frame: "\<forall>r. r \<notin> set out \<longrightarrow> h' r = h1 r"
      and upd: "\<forall>x\<in>set xs. \<forall>r. doc_map (fst x) = Some r \<longrightarrow>
              h' r = (h1 r)\<lparr>score := snd x, source := ''hybrid''\<rparr>"
    have step: "fuse_results doc_map h (x # xs) = Inr (r0 # out, h')"
      using run r0(1) by (simp add: x h1_def)
    have r0_notin: "r0 \<notin> set out"
    proof
      assume "r0 \<in> set out"
      then have "Some r0 \<in> set (map Some out)" by simp
      with outs obtain y where y: "y \<in> set xs" "doc_map (fst y) = Some r0" by auto
      with Cons.prems(2) have "get_doc_id (h r0) = fst y" by fastforce
      with r0(2) y(1) dnotin show False by auto
    qed
    have 1: "map Some (r0 # out) = map (\<lambda>x. doc_map (fst x)) (x # xs)"
      using outs r0(1) by (simp add: x)
    have 2: "\<forall>r. r \<notin> set (r0 # out) \<longrightarrow> h' r = h r"
      using frame by (auto simp: h1_def)
    have 3: "\<forall>y\<in>set (x # xs). \<forall>r. doc_map (fst y) = Some r \<longrightarrow>
              h' r = (h r)\<lparr>score := snd y, source := ''hybrid''\<rparr>"
    proof (intro ballI allI impI)
      fix y r assume y: "y \<in> set (x # xs)" and r: "doc_map (fst y) = Some r"
      show "h' r = (h r)\<lparr>score := snd y, source := ''hybrid''\<rparr>"
      proof (cases "y \<in> set xs")
        case True
        with upd r have eq: "h' r = (h1 r)\<lparr>score := snd y, source := ''hybrid''\<rparr>" by blast
        from True dnotin have "fst y \<noteq> d" by auto
        moreover from Cons.prems(2) True r have "get_doc_id (h r) = fst y" by fastforce
        ultimately have "r \<noteq> r0" using r0(2) by auto
        with eq show ?thesis by (simp add: h1_def)
      next
        case False
        with y have "y = x" by simp
        with r r0(1) have "r = r0" by (simp add: x)
        with r0_notin frame \<open>y = x\<close> show ?thesis by (simp add: h1_def x)
      qed
    qed
    show ?case by (intro exI[of _ "r0 # out"] exI[of _ h'] conjI) (fact step 1 2 3)+
  qed
qed

lemma fuse_vector_props:
  assumes "0 < k + rank" and "fuse_vector h alpha k rank vs (dm, ds) = Inr (dm', ds')"
  shows "(distinct (map fst ds) \<longrightarrow> distinct (map fst ds')) \<and>
           fst ` set ds' = fst ` set ds \<union> (\<lambda>r. get_doc_id (h r)) ` set vs \<and>
           dom dm' = dom dm \<union> (\<lambda>r. get_doc_id (h r)) ` set vs \<and>
           (\<forall>d r. dm' d = Some r \<longrightarrow> dm d = Some r \<or> (r \<in> set vs \<and> get_doc_id (h r) = d)) \<and>
           (distinct (map (\<lambda>r. get_doc_id (h r)) vs) \<longrightarrow>
              (\<forall>d. map_of ds' d =
                 (if d \<in> (\<lambda>r. get_doc_id (h r)) ` set vs
                  then Some (contribution h alpha k rank vs d) else map_of ds d)))"
  using fuse_vector_inv[OF assms(1), of h alpha vs dm ds] assms(2)
  by (elim exE conjE) simp

lemma fuse_vector_returns:
  assumes "0 < k + rank"
  shows "\<exists>st. fuse_vector h alpha k rank vs (dm, ds) = Inr st"
  using fuse_vector_inv[OF assms, of h alpha vs dm ds] by (elim exE conjE) simp

lemma fuse_bm25_props:
  assumes "0 < k + rank" and "fuse_bm25 h alpha k rank bs (dm, ds) = Inr (dm', ds')"
  shows "(distinct (map fst ds) \<longrightarrow> distinct (map fst ds')) \<and>
           fst ` set ds' = fst ` set ds \<union> (\<lambda>r. get_doc_id (h r)) ` set bs \<and>
           dom dm' = dom dm \<union> (\<lambda>r. get_doc_id (h r)) ` set bs \<and>
           (\<forall>d r. dm' d = Some r \<longrightarrow> dm d = Some r \<or> (r \<in> set bs \<and> get_doc_id (h r) = d)) \<and>
           (\<forall>d. map_of ds' d =
              (if d \<in> (\<lambda>r. get_doc_id (h r)) ` set bs
               then Some ((case map_of ds d of None \<Rightarrow> 0 | Some s \<Rightarrow> s) +
                          contribution h (1 - alpha) k rank bs d)
               else map_of ds d))"
  using fuse_bm25_inv[OF assms(1), of h alpha bs dm ds] assms(2)
  by (elim exE conjE) simp

lemma fuse_bm25_returns:
  assumes "0 < k + rank"
  shows "\<exists>st. fuse_bm25 h alpha k rank bs (dm, ds) = Inr st"
  using fuse_bm25_inv[OF assms, of h alpha bs dm ds] by (elim exE conjE) simp

lemma fuse_results_props:
  assumes "distinct (map fst xs)"
    and "\<forall>d\<in>fst ` set xs. \<exists>r. doc_map d = Some r \<and> get_doc_id (h r) = d"
    and "fuse_results doc_map h xs = Inr (out, h')"
  shows "map Some out = map (\<lambda>x. doc_map (fst x)) xs \<and>
           (\<forall>x\<in>set xs. \<forall>r. doc_map (fst x) = Some r \<longrightarrow>
              h' r = (h r)\<lparr>score := snd x, source := ''hybrid''\<rparr>)"
  using fuse_results_inv[OF assms(1,2)] assms(3)
  by (elim exE conjE) simp

lemma fuse_results_returns:
  assumes "distinct (map fst xs)"
    and "\<forall>d\<in>fst ` set xs. \<exists>r. doc_map d = Some r \<and> get_doc_id (h r) = d"
  shows "\<exists>res. fuse_results doc_map h xs = Inr res"
  using fuse_results_inv[OF assms] by (elim exE conjE) simp

text \<open>Fusion when no two vector results share a key, for \<open>k \<ge> 0\<close>: every distinct key of
  either list appears once in the output, its object carries the sum of \<open>alpha / (k + r)\<close>
  over its vector ranks and \<open>(1 - alpha) / (k + r)\<close> over its lexical ranks and the tag
  \<open>"hybrid"\<close>, and the output is in descending order of fused score.\<close>

lemma rrf_distinct_vector_keys:
  assumes "0 \<le> k"
    and "distinct (map (\<lambda>r. get_doc_id (h r)) vector_results)"
  shows "\<exists>out h'. reciprocal_rank_fusion alpha h vector_results bm25_results k = Inr (out, h') \<and>
           distinct (map (\<lambda>r. get_doc_id (h r)) out) \<and>
           (\<lambda>r. get_doc_id (h r)) ` set out =
             (\<lambda>r. get_doc_id (h r)) ` (set vector_results \<union> set bm25_results) \<and>
           set out \<subseteq> set vector_results \<union> set bm25_results \<and>
           (\<forall>r\<in>set out.
              h' r = (h r)\<lparr>score := contribution h alpha k 1 vector_results (get_doc_id (h r)) +
                                      contribution h (1 - alpha) k 1 bm25_results (get_doc_id (h r)),
                            source := ''hybrid''\<rparr>) \<and>
           sorted_wrt (\<lambda>a b. score (h' b) \<le> score (h' a)) out"
proof -
  define key where "key = (\<lambda>r. get_doc_id (h r))"
  define total where "total = (\<lambda>d. contribution h alpha k 1 vector_results d +
                                   contribution h (1 - alpha) k 1 bm25_results d)"
  from assms(1) have pos: "0 < k + 1" by simp
  from fuse_vector_returns[OF pos, of h alpha vector_results Map.empty "[]"]
  obtain dm1 ds1 where
    run1: "fuse_vector h alpha k 1 vector_results (Map.empty, []) = Inr (dm1, ds1)"
    by auto
  note p1 = fuse_vector_props[OF pos run1]
  from p1 have dist1: "distinct (map fst ds1)" by simp
  from p1 have keys1: "fst ` set ds1 = key ` set vector_results" by (simp add: key_def)
  from p1 have dom1: "dom dm1 = key ` set vector_results" by (simp add: key_def)
  from p1 have refs1: "\<forall>d r. dm1 d = Some r \<longrightarrow> r \<in> set vector_results \<and> key r = d"
    by (simp add: key_def)
  from p1 assms(2) have sc1: "\<forall>d. map_of ds1 d =
                 (if d \<in> key ` set vector_results
                  then Some (contribution h alpha k 1 vector_results d) else None)"
    by (simp add: key_def)
  from fuse_bm25_returns[OF pos, of h alpha bm25_results dm1 ds1]
  obtain dm2 ds2 where
    run2: "fuse_bm25 h alpha k 1 bm25_results (dm1, ds1) = Inr (dm2, ds2)"
    by auto
  note p2 = fuse_bm25_props[OF pos run2]
  from p2 dist1 have dist2: "distinct (map fst ds2)" by simp
  from p2 keys1 have keys2: "fst ` set ds2 = key ` set vector_results \<union> key ` set bm25_results"
    by (simp add: key_def)
  from p2 dom1 have dom2: "dom dm2 = key ` set vector_results \<union> key ` set bm25_results"
    by (simp add: key_def)
  from p2 have refs2': "\<forall>d r. dm2 d = Some r \<longrightarrow> dm1 d = Some r \<or> (r \<in> set bm25_results \<and> key r = d)"
    by (simp add: key_def)
  from p2 have sc2: "\<forall>d. map_of ds2 d =
              (if d \<in> key ` set bm25_results
               then Some ((case map_of ds1 d of None \<Rightarrow> 0 | Some s \<Rightarrow> s) +
                          contribution h (1 - alpha) k 1 bm25_results d)
               else map_of ds1 d)"
    by (simp add: key_def)
  have refs2: "\<forall>d r. dm2 d = Some r \<longrightarrow> r \<in> set vector_results \<union> set bm25_results \<and> key r = d"
    using refs1 refs2' by blast
  have sc: "map_of ds2 d = Some (total d)" if "d \<in> fst ` set ds2" for d
  proof (cases "d \<in> key ` set vector_results")
    case True
    then have v: "map_of ds1 d = Some (contribution h alpha k 1 vector_results d)"
      using sc1 by simp
    show ?thesis
    proof (cases "d \<in> key ` set bm25_results")
      case True
      with sc2 v show ?thesis by (simp add: total_def)
    next
      case False
      then have "contribution h (1 - alpha) k 1 bm25_results d = 0"
        unfolding key_def by (rule contribution_absent)
      with sc2 v False show ?thesis by (simp add: total_def)
    qed
  next
    case False
    with that keys2 have b: "d \<in> key ` set bm25_results" by blast
    from False have "map_of ds1 d = None" using sc1 by simp
    moreover from False have "contribution h alpha k 1 vector_results d = 0"
      unfolding key_def by (rule contribution_absent)
    ultimately show ?thesis using sc2 b by (simp add: total_def)
  qed
  define srt where "srt = sort_desc snd ds2"
  have srt_set: "set srt = set ds2" by (simp add: srt_def)
  have srt_dist: "distinct (map fst srt)"
    using dist2 by (simp add: srt_def sort_desc_def distinct_map)
  have srt_sorted: "sorted_wrt (\<lambda>x y. snd y \<le> snd x) srt"
    unfolding srt_def by (rule sort_desc_sorted)
  have pre: "\<forall>d\<in>fst ` set srt. \<exists>r. dm2 d = Some r \<and> get_doc_id (h r) = d"
  proof
    fix d assume "d \<in> fst ` set srt"
    with srt_set keys2 dom2 have "d \<in> dom dm2" by simp
    then obtain r where "dm2 d = Some r" by blast
    with refs2 show "\<exists>r. dm2 d = Some r \<and> get_doc_id (h r) = d" by (auto simp: key_def)
  qed
  from fuse_results_returns[OF srt_dist pre] obtain out h' where
    run3: "fuse_results dm2 h srt = Inr (out, h')" by auto
  note p3 = fuse_results_props[OF srt_dist pre run3]
  from p3 have outs: "map Some out = map (\<lambda>x. dm2 (fst x)) srt" by simp
  from p3 have upd: "\<forall>x\<in>set srt. \<forall>r. dm2 (fst x) = Some r \<longrightarrow>
              h' r = (h r)\<lparr>score := snd x, source := ''hybrid''\<rparr>" by simp
  have run: "reciprocal_rank_fusion alpha h vector_results bm25_results k = Inr (out, h')"
    using run1 run2 run3 by (simp add: reciprocal_rank_fusion_def srt_def)
  from outs have len: "length out = length srt" by (metis length_map)
  have pt: "out ! i \<in> set vector_results \<union> set bm25_results \<and> key (out ! i) = fst (srt ! i) \<and>
            h' (out ! i) = (h (out ! i))\<lparr>score := total (key (out ! i)), source := ''hybrid''\<rparr> \<and>
            score (h' (out ! i)) = snd (srt ! i)"
    if i: "i < length srt" for i
  proof -
    from i len have "map Some out ! i = Some (out ! i)" by simp
    moreover from i have "map (\<lambda>x. dm2 (fst x)) srt ! i = dm2 (fst (srt ! i))" by simp
    ultimately have dm: "dm2 (fst (srt ! i)) = Some (out ! i)" using outs by simp
    with refs2 have a: "out ! i \<in> set vector_results \<union> set bm25_results" "key (out ! i) = fst (srt ! i)"
      by blast+
    from i have mem: "srt ! i \<in> set srt" by simp
    with upd dm have b: "h' (out ! i) = (h (out ! i))\<lparr>score := snd (srt ! i), source := ''hybrid''\<rparr>"
      by blast
    from mem srt_set have "(fst (srt ! i), snd (srt ! i)) \<in> set ds2" by simp
    with dist2 have "map_of ds2 (fst (srt ! i)) = Some (snd (srt ! i))" by simp
    moreover from mem srt_set have "fst (srt ! i) \<in> fst ` set ds2" by force
    ultimately have "snd (srt ! i) = total (fst (srt ! i))" using sc by simp
    with a b show ?thesis by simp
  qed
  have keys_out: "map key out = map fst srt"
    using len pt by (intro nth_equalityI) simp_all
  have 1: "distinct (map key out)" using keys_out srt_dist by simp
  have "key ` set out = fst ` set srt"
    using keys_out by (metis list.set_map)
  with srt_set keys2 have 2: "key ` set out = key ` (set vector_results \<union> set bm25_results)"
    by (simp add: image_Un)
  have at: "\<exists>i<length srt. out ! i = r" if "r \<in> set out" for r
    using that len by (metis in_set_conv_nth)
  have 3: "set out \<subseteq> set vector_results \<union> set bm25_results"
  proof
    fix r assume "r \<in> set out"
    with at obtain i where "i < length srt" "out ! i = r" by blast
    with pt[of i] show "r \<in> set vector_results \<union> set bm25_results" by simp
  qed
  have 4: "\<forall>r\<in>set out. h' r = (h r)\<lparr>score := total (key r), source := ''hybrid''\<rparr>"
  proof
    fix r assume "r \<in> set out"
    with at obtain i where "i < length srt" "out ! i = r" by blast
    with pt[of i] show "h' r = (h r)\<lparr>score := total (key r), source := ''hybrid''\<rparr>" by simp
  qed
  have 5: "sorted_wrt (\<lambda>a b. score (h' b) \<le> score (h' a)) out"
    unfolding sorted_wrt_iff_nth_less
  proof (intro allI impI)
    fix i j assume "i < j" "j < length out"
    with len have "i < length srt" "j < length srt" by simp_all
    with pt have "score (h' (out ! i)) = snd (srt ! i)" "score (h' (out ! j)) = snd (srt ! j)"
      by blast+
    moreover from srt_sorted \<open>i < j\<close> \<open>j < length srt\<close> have "snd (srt ! j) \<le> snd (srt ! i)"
      by (simp add: sorted_wrt_iff_nth_less)
    ultimately show "score (h' (out ! j)) \<le> score (h' (out ! i))" by simp
  qed
  show ?thesis
    using run 1 2 3 4 5 unfolding key_def total_def
    by (intro exI[of _ out] exI[of _ h'] conjI)
qed

text \<open>The example of the specification: vector ranking \<open>[A, B]\<close>, lexical ranking \<open>[B, C]\<close>,
  \<open>alpha = 0.5\<close>, \<open>k = 60\<close>. The order is B, A, C with the scores the specification gives.\<close>

lemma rrf_spec_example:
  "observe (reciprocal_rank_fusion (1 / 2) ex_fusion_heap [0, 1] [2, 3] 60) =
     Inr [(''B_0'', (1 / 2) / 62 + (1 / 2) / 61, ''hybrid''),
          (''A_0'', (1 / 2) / 61, ''hybrid''),
          (''C_0'', (1 / 2) / 62, ''hybrid'')]"
  by (simp add: observe_def reciprocal_rank_fusion_def ex_fusion_heap_def ex_result_def
        get_doc_id_def dict_get_def py_div_def sort_desc_def Let_def)

text \<open>
  Claim C1 at two vector results with one key. Results built by the ingestion pipeline
  carry \<open>document_id\<close> and \<open>chunk_id\<close> beside their metadata, not in it, so \<open>_get_doc_id\<close>
  gives every such result the key \<open>"_"\<close>. The vector loop assigns
  \<open>doc_scores[doc_id] = alpha / (k + rank)\<close>: the second result overwrites the first, and the
  fused score is \<open>0.5/62\<close>, not the sum \<open>0.5/61 + 0.5/62\<close> over the ranks. The lexical loop
  adds, and gives the sum for the same two results.
\<close>

theorem rrf_duplicate_vector_key:
  "observe (reciprocal_rank_fusion (1 / 2) ex_dup_heap [0, 1] [] 60) =
     Inr [(''_'', (1 / 2) / 62, ''hybrid'')] \<and>
   contribution ex_dup_heap (1 / 2) 60 1 [0, 1] ''_'' = (1 / 2) / 61 + (1 / 2) / 62 \<and>
   observe (reciprocal_rank_fusion (1 / 2) ex_dup_heap [] [0, 1] 60) =
     Inr [(''_'', (1 / 2) / 61 + (1 / 2) / 62, ''hybrid'')]"
  by (simp add: observe_def reciprocal_rank_fusion_def ex_dup_heap_def
        get_doc_id_def dict_get_def py_div_def sort_desc_def Let_def)

end
